theory Spec2Isabelle
  imports Complex_Main "HOL-Library.Word"
begin

unbundle bit_operations_syntax

section \<open>PrivacyStripper: the byte-level model\<close>

text \<open>
  The file read by \<open>os.ReadFile\<close> is a Go slice: the bytes of the file (its length) in a
  buffer that may be longer (its capacity). Go checks an index \<open>data[i]\<close> against the
  length and the upper bound of a slice expression \<open>data[lo:hi]\<close> against the capacity.
  The model keeps the file's bytes as a list and the spare capacity as a number
  \<open>slack\<close> (capacity minus length); the spare bytes are the zero bytes that \<open>make\<close>
  allocated and \<open>Read\<close> never wrote. Go's \<open>int\<close> is taken to be 64 bits wide, so no
  offset computed from a 16-bit or 32-bit field overflows.
\<close>

type_synonym byte = "8 word"

datatype byteOrder = LittleEndian | BigEndian

definition uint16 :: "byteOrder \<Rightarrow> byte \<Rightarrow> byte \<Rightarrow> nat" where
  "uint16 bo b0 b1 =
     (case bo of LittleEndian \<Rightarrow> unat b0 + 256 * unat b1
               | BigEndian \<Rightarrow> unat b1 + 256 * unat b0)"

definition uint32 :: "byteOrder \<Rightarrow> byte \<Rightarrow> byte \<Rightarrow> byte \<Rightarrow> byte \<Rightarrow> nat" where
  "uint32 bo b0 b1 b2 b3 =
     (case bo of
        LittleEndian \<Rightarrow> unat b0 + 256 * unat b1 + 65536 * unat b2 + 16777216 * unat b3
      | BigEndian \<Rightarrow> unat b3 + 256 * unat b2 + 65536 * unat b1 + 16777216 * unat b0)"

text \<open>The inner loop \<open>for j := entryOffset; j < entryOffset+12; j++ { exifResult[j] = 0 }\<close>,
  with the number of bytes still to clear as the recursion argument.\<close>

fun zeroBytes :: "byte list \<Rightarrow> nat \<Rightarrow> nat \<Rightarrow> byte list" where
  "zeroBytes result j 0 = result"
| "zeroBytes result j (Suc n) = zeroBytes (result[j := 0]) (Suc j) n"

text \<open>
  The loop over the directory entries of \<open>removeGPSFromExif\<close>. \<open>exifResult\<close> is the
  slice \<open>result[10:]\<close> and shares its memory with \<open>result\<close>: index \<open>k\<close> of
  \<open>exifResult\<close> is index \<open>10 + k\<close> of \<open>result\<close>, and its length is
  \<open>length result - 10\<close>. \<open>offset\<close> is the offset of the first entry.
\<close>

function removeGPSLoop ::
  "byteOrder \<Rightarrow> nat \<Rightarrow> nat \<Rightarrow> nat \<Rightarrow> byte list \<Rightarrow> bool \<Rightarrow> byte list \<times> bool" where
  "removeGPSLoop bo offset numEntries i result modified =
     (if i < numEntries then
        (let entryOffset = offset + i * 12 in
         if entryOffset + 12 > length result - 10 then (result, modified)
         else if uint16 bo (result ! (10 + entryOffset)) (result ! (10 + entryOffset + 1)) = 0x8825
              then removeGPSLoop bo offset numEntries (i + 1)
                     (zeroBytes result (10 + entryOffset) 12) True
              else removeGPSLoop bo offset numEntries (i + 1) result modified)
      else (result, modified))"
  by pat_completeness auto
termination
  by (relation "measure (\<lambda>(bo, offset, numEntries, i, result, modified). numEntries - i)") auto

declare removeGPSLoop.simps [simp del]

definition byteOrderMark :: "byte list \<Rightarrow> byteOrder option" where
  "byteOrderMark exifData =
     (if take 2 exifData = [0x49, 0x49] then Some LittleEndian
      else if take 2 exifData = [0x4D, 0x4D] then Some BigEndian
      else None)"

definition removeGPSFromExif :: "byte list \<Rightarrow> byte list \<times> bool" where
  "removeGPSFromExif segment =
     (if length segment < 12 then (segment, False)
      else
        let exifData = drop 10 segment in
        if length exifData < 8 then (segment, False)
        else
          (case byteOrderMark exifData of
             None \<Rightarrow> (segment, False)
           | Some bo \<Rightarrow>
               let ifdOffset = uint32 bo (exifData ! 4) (exifData ! 5) (exifData ! 6) (exifData ! 7) in
               if ifdOffset \<ge> length exifData then (segment, False)
               else
                 let offset = ifdOffset in
                 if offset + 2 > length exifData then (segment, False)
                 else
                   let numEntries = uint16 bo (exifData ! offset) (exifData ! (offset + 1)) in
                   removeGPSLoop bo (offset + 2) numEntries 0 segment False))"

text \<open>
  \<open>data[lo:hi]\<close> on the buffer read from the file: a run-time panic (\<open>None\<close>) when
  \<open>hi\<close> exceeds the capacity, otherwise the bytes from \<open>lo\<close> up to \<open>hi\<close>, spare
  bytes included. \<open>data[lo:]\<close> ends at the length.
\<close>

definition sliceTo :: "nat \<Rightarrow> byte list \<Rightarrow> nat \<Rightarrow> nat \<Rightarrow> byte list option" where
  "sliceTo slack data lo hi =
     (if hi > length data + slack \<or> lo > hi then None
      else Some (take (hi - lo) (drop lo (data @ replicate slack 0))))"

definition exifSignature :: "byte list" where
  "exifSignature = [0x45, 0x78, 0x69, 0x66, 0x00, 0x00]"

text \<open>
  The marker walk of \<open>stripGPSFromJPEG\<close>: the state of the \<open>for pos < len(data)-1\<close>
  loop is \<open>pos\<close>, \<open>result\<close> and \<open>modified\<close>. \<open>None\<close> is the panic of an
  out-of-range slice expression.
\<close>

function stripWalk ::
  "nat \<Rightarrow> byte list \<Rightarrow> nat \<Rightarrow> byte list \<Rightarrow> bool \<Rightarrow> (byte list \<times> bool) option" where
  "stripWalk slack data pos result modified =
     (if pos < length data - 1 then
        (if data ! pos \<noteq> 0xFF then Some (result @ drop pos data, modified)
         else
           let marker = data ! (pos + 1) in
           if marker = 0xD9 then Some (result @ drop pos data, modified)
           else if marker = 0xDA then Some (result @ drop pos data, modified)
           else if pos + 4 > length data then Some (result, modified)
           else
             let segLen = uint16 BigEndian (data ! (pos + 2)) (data ! (pos + 3)) + 2 in
             if marker = 0xE1 \<and> pos + 10 < length data
                \<and> take 6 (drop (pos + 4) data) = exifSignature
             then
               (case sliceTo slack data pos (pos + segLen) of
                  None \<Rightarrow> None
                | Some segment \<Rightarrow>
                    let (cleaned, changed) = removeGPSFromExif segment in
                    stripWalk slack data (pos + segLen) (result @ cleaned)
                      (if changed then True else modified))
             else
               (case sliceTo slack data pos (pos + segLen) of
                  None \<Rightarrow> None
                | Some segment \<Rightarrow>
                    stripWalk slack data (pos + segLen) (result @ segment) modified))
      else Some (result, modified))"
  by pat_completeness auto
termination
  by (relation "measure (\<lambda>(slack, data, pos, result, modified). length data - pos)")
     (auto simp: uint16_def)

declare stripWalk.simps [simp del]

text \<open>
  What a call of \<open>StripGPS\<close> does: it returns the error of \<open>os.ReadFile\<close>, it panics,
  it returns \<open>nil\<close> without writing, or it calls \<open>os.WriteFile\<close> with the new bytes
  and returns what that call returns.
\<close>

datatype outcome = ReadError | Panic | ReturnNil | WriteFile "byte list"

type_synonym filesystem = "string \<rightharpoonup> byte list"

definition stripGPSFromJPEG :: "nat \<Rightarrow> filesystem \<Rightarrow> string \<Rightarrow> outcome" where
  "stripGPSFromJPEG slack fs path =
     (case fs path of
        None \<Rightarrow> ReadError
      | Some data \<Rightarrow>
          if length data < 2 \<or> data ! 0 \<noteq> 0xFF \<or> data ! 1 \<noteq> 0xD8 then ReturnNil
          else
            (case stripWalk slack data 2 [0xFF, 0xD8] False of
               None \<Rightarrow> Panic
             | Some (result, modified) \<Rightarrow>
                 if modified then WriteFile result else ReturnNil))"

definition StripGPS :: "nat \<Rightarrow> filesystem \<Rightarrow> string \<Rightarrow> outcome" where
  "StripGPS slack fs path = stripGPSFromJPEG slack fs path"


subsection \<open>The JPEG stream and the EXIF directory, as the specification describes them\<close>

text \<open>
  The definitions of this subsection follow the words of the specification, not the code;
  the theorems compare them with \<open>stripGPSFromJPEG\<close> and \<open>removeGPSFromExif\<close>.

  An APP1 segment as a byte list starts with the marker (2 bytes), the declared length
  (2 bytes) and the signature (6 bytes); the TIFF header follows at index 10: the byte
  order mark, a two-byte magic number and the four-byte offset of IFD0, relative to the
  header. The byte order mark is \<open>II\<close> (little-endian) or \<open>MM\<close> (big-endian).
  IFD0 starts with the two-byte number of its entries. \<open>tiffHeader\<close> gives the
  byte order, the index in the segment of the first directory entry and the number of
  entries, when the header and the entry count lie inside the segment.
\<close>

definition tiffByteOrder :: "byte list \<Rightarrow> byteOrder option" where
  "tiffByteOrder seg =
     (if seg ! 10 = 0x49 \<and> seg ! 11 = 0x49 then Some LittleEndian
      else if seg ! 10 = 0x4D \<and> seg ! 11 = 0x4D then Some BigEndian
      else None)"

definition tiffHeader :: "byte list \<Rightarrow> (byteOrder \<times> nat \<times> nat) option" where
  "tiffHeader seg =
     (if length seg < 18 then None
      else
        (case tiffByteOrder seg of
           None \<Rightarrow> None
         | Some bo \<Rightarrow>
             let ifdOffset = uint32 bo (seg ! 14) (seg ! 15) (seg ! 16) (seg ! 17) in
             if ifdOffset + 2 > length seg - 10 then None
             else Some (bo, 10 + ifdOffset + 2,
                        uint16 bo (seg ! (10 + ifdOffset)) (seg ! (10 + ifdOffset + 1)))))"

text \<open>
  Entry \<open>i\<close> of the directory is the 12 bytes from index \<open>first + i * 12\<close>. It is a GPS
  entry when it lies inside the segment and its tag, the first two bytes read in the
  segment's byte order, is the GPS-IFD-pointer tag \<open>0x8825\<close>. \<open>gpsEntries\<close> lists the
  indices at which the GPS entries of IFD0 start, \<open>inGPSEntry\<close> says that a byte index
  lies in one of them, and \<open>zeroGPS\<close> is the segment with exactly those bytes zero.
\<close>

definition gpsEntryAt :: "byteOrder \<Rightarrow> nat \<Rightarrow> byte list \<Rightarrow> nat \<Rightarrow> bool" where
  "gpsEntryAt bo first seg i =
     (first + i * 12 + 12 \<le> length seg
      \<and> uint16 bo (seg ! (first + i * 12)) (seg ! (first + i * 12 + 1)) = 0x8825)"

definition gpsEntries :: "byte list \<Rightarrow> nat list" where
  "gpsEntries seg =
     (case tiffHeader seg of
        None \<Rightarrow> []
      | Some (bo, first, n) \<Rightarrow>
          map (\<lambda>i. first + i * 12) (filter (gpsEntryAt bo first seg) [0..<n]))"

definition inGPSEntry :: "byte list \<Rightarrow> nat \<Rightarrow> bool" where
  "inGPSEntry seg k = (\<exists>e\<in>set (gpsEntries seg). e \<le> k \<and> k < e + 12)"

definition zeroGPS :: "byte list \<Rightarrow> byte list" where
  "zeroGPS seg = map (\<lambda>k. if inGPSEntry seg k then 0 else seg ! k) [0..<length seg]"

text \<open>
  A marker segment is a marker byte and a payload; on the wire it is \<open>FF\<close>, the marker,
  the big-endian length of the payload plus the two length bytes, and the payload. A JPEG
  stream is the Start-Of-Image marker \<open>FF D8\<close>, marker segments, and then the
  Start-Of-Scan marker \<open>FF DA\<close> or the End-Of-Image marker \<open>FF D9\<close> with whatever bytes
  follow it (the compressed scan data). An EXIF segment is an APP1 segment (marker
  \<open>E1\<close>) whose payload begins with the signature \<open>Exif\<close>, NUL, NUL.
  \<open>segmentStart segs i\<close> is the offset of segment \<open>i\<close> in the stream.
\<close>

type_synonym segment = "byte \<times> byte list"

definition encodeSegment :: "segment \<Rightarrow> byte list" where
  "encodeSegment s =
     [0xFF, fst s, of_nat ((length (snd s) + 2) div 256), of_nat ((length (snd s) + 2) mod 256)]
     @ snd s"

definition validSegment :: "segment \<Rightarrow> bool" where
  "validSegment s = (fst s \<noteq> 0xD9 \<and> fst s \<noteq> 0xDA \<and> length (snd s) + 2 < 65536)"

definition validTail :: "byte list \<Rightarrow> bool" where
  "validTail t = (take 2 t = [0xFF, 0xD9] \<or> take 2 t = [0xFF, 0xDA])"

definition jpegStream :: "segment list \<Rightarrow> byte list \<Rightarrow> byte list" where
  "jpegStream segs t = [0xFF, 0xD8] @ concat (map encodeSegment segs) @ t"

definition isExifSegment :: "segment \<Rightarrow> bool" where
  "isExifSegment s = (fst s = 0xE1 \<and> take 6 (snd s) = exifSignature)"

text \<open>
  What the specification asks of the stripper on one segment: an EXIF segment has the
  bytes of its GPS entries zeroed and every other segment is left alone.
  \<open>carriesGPS\<close> says that a segment is an EXIF segment with a GPS entry in IFD0.
\<close>

definition stripSegment :: "segment \<Rightarrow> segment" where
  "stripSegment s =
     (if isExifSegment s then (fst s, drop 4 (zeroGPS (encodeSegment s))) else s)"

definition carriesGPS :: "segment \<Rightarrow> bool" where
  "carriesGPS s = (isExifSegment s \<and> gpsEntries (encodeSegment s) \<noteq> [])"

definition segmentStart :: "segment list \<Rightarrow> nat \<Rightarrow> nat" where
  "segmentStart segs i = 2 + length (concat (map encodeSegment (take i segs)))"

text \<open>
  The result buffer of \<open>removeGPSFromExif\<close> when the loop has handled the entries below
  \<open>i\<close>: the bytes of the GPS entries among them are zero and the others are those of the
  segment.
\<close>

definition covered :: "byteOrder \<Rightarrow> nat \<Rightarrow> byte list \<Rightarrow> nat \<Rightarrow> nat \<Rightarrow> bool" where
  "covered bo first seg i k =
     (\<exists>i'<i. gpsEntryAt bo first seg i' \<and> first + i' * 12 \<le> k \<and> k < first + i' * 12 + 12)"

definition cleared :: "byteOrder \<Rightarrow> nat \<Rightarrow> byte list \<Rightarrow> nat \<Rightarrow> byte list" where
  "cleared bo first seg i =
     map (\<lambda>k. if covered bo first seg i k then 0 else seg ! k) [0..<length seg]"

section \<open>DerivativeCache: placeholder images\<close>

text \<open>
  An \<open>image.RGBA\<close> as Go has it: the pixel bytes \<open>Pix\<close>, four per pixel, rows of
  \<open>Stride\<close> bytes, and the rectangle from \<open>RectMin\<close> (inclusive) to \<open>RectMax\<close>
  (exclusive). \<open>image.Rect\<close> orders its corners, \<open>NewRGBA\<close> allocates zero bytes,
  and \<open>Set\<close> ignores a point outside the rectangle. \<open>fillLoop\<close> is the pair of
  nested counting loops \<open>for y := 0; y < height; y++ { for x := 0; x < width; x++ {
  img.Set(x, y, c) } }\<close> that both branches of \<open>GeneratePlaceholder\<close> run.
\<close>

record rgbaImage =
  Pix :: "byte list"
  Stride :: int
  RectMin :: "int \<times> int"
  RectMax :: "int \<times> int"

type_synonym rgba = "byte \<times> byte \<times> byte \<times> byte"

definition imageRect :: "int \<Rightarrow> int \<Rightarrow> int \<Rightarrow> int \<Rightarrow> (int \<times> int) \<times> (int \<times> int)" where
  "imageRect x0 y0 x1 y1 =
     (let (x0, x1) = (if x0 > x1 then (x1, x0) else (x0, x1));
          (y0, y1) = (if y0 > y1 then (y1, y0) else (y0, y1))
      in ((x0, y0), (x1, y1)))"

definition NewRGBA :: "(int \<times> int) \<times> (int \<times> int) \<Rightarrow> rgbaImage" where
  "NewRGBA r =
     (let w = fst (snd r) - fst (fst r); h = snd (snd r) - snd (fst r) in
      \<lparr>Pix = replicate (nat (4 * w * h)) 0, Stride = 4 * w, RectMin = fst r, RectMax = snd r\<rparr>)"

definition pointIn :: "int \<Rightarrow> int \<Rightarrow> rgbaImage \<Rightarrow> bool" where
  "pointIn x y p =
     (fst (RectMin p) \<le> x \<and> x < fst (RectMax p) \<and> snd (RectMin p) \<le> y \<and> y < snd (RectMax p))"

definition PixOffset :: "rgbaImage \<Rightarrow> int \<Rightarrow> int \<Rightarrow> nat" where
  "PixOffset p x y = nat ((y - snd (RectMin p)) * Stride p + (x - fst (RectMin p)) * 4)"

definition setRGBA :: "rgbaImage \<Rightarrow> int \<Rightarrow> int \<Rightarrow> rgba \<Rightarrow> rgbaImage" where
  "setRGBA p x y c =
     (if \<not> pointIn x y p then p
      else
        let i = PixOffset p x y; (r, g, b, a) = c in
        p\<lparr>Pix := (Pix p)[i := r, i + 1 := g, i + 2 := b, i + 3 := a]\<rparr>)"

definition fillLoop :: "rgbaImage \<Rightarrow> int \<Rightarrow> int \<Rightarrow> (int \<Rightarrow> int \<Rightarrow> rgba) \<Rightarrow> rgbaImage" where
  "fillLoop img width height colorAt =
     fold (\<lambda>y img. fold (\<lambda>x img. setRGBA img x y (colorAt x y)) [0..width - 1] img)
       [0..height - 1] img"

definition gray :: rgba where
  "gray = (128, 128, 128, 255)"

section \<open>MetadataCodec\<close>

text \<open>
  The metadata record is restricted to the fields the verified properties are about; the
  other fields of \<open>models.ExifInfo\<close> are filled by the same pattern of calls. What the
  code takes from outside the repository is a parameter, collected in the record
  \<open>golib\<close>: the run of the external tool, the JSON and EXIF decoders and the
  formatting and parsing functions of the standard library.

  A \<open>float64\<close> is modelled by the rational number it denotes (infinities, NaN and the
  sign of zero are left out); \<open>sprintf1\<close> stands for \<open>fmt.Sprintf("%.1f", v)\<close> and
  \<open>sprintf2\<close> for \<open>fmt.Sprintf("%.2f", v)\<close>. A \<open>time.Time\<close> is a number of
  seconds since the zero instant, so that \<open>time.Time{}\<close> is \<open>0\<close>.
\<close>

record ExifInfo =
  ExposureComp :: string
  Flash :: string
  DateTimeOriginal :: string

definition emptyExifInfo :: ExifInfo where
  "emptyExifInfo = \<lparr>ExposureComp = [], Flash = [], DateTimeOriginal = []\<rparr>"

type_synonym time = int

definition zeroTime :: time where
  "zeroTime = 0"

text \<open>A value of the decoded JSON object: \<open>encoding/json\<close> decodes every JSON number
  into a \<open>float64\<close>, so the \<open>case int\<close> of the getters is never taken.\<close>

datatype jsonValue = JString string | JNumber rat | JOther

text \<open>What the built-in strategy reads from the decoded EXIF directory: a field is
  \<open>None\<close> when \<open>x.Get\<close> or the conversion of the tag (\<open>Rat2(0)\<close>, \<open>Int(0)\<close>,
  \<open>x.DateTime()\<close>) returns an error.\<close>

record exifTags =
  ExposureBiasValue :: "(int \<times> int) option"
  FlashTag :: "int option"
  DateTimeTag :: "time option"

record golib =
  exifDecode :: "byte list \<Rightarrow> exifTags option"
  exiftoolOutput :: "string \<Rightarrow> string option"
  jsonUnmarshal :: "string \<Rightarrow> (string \<rightharpoonup> jsonValue) list option"
  atoi :: "string \<Rightarrow> int option"
  parseFloat :: "string \<Rightarrow> rat option"
  itoa :: "int \<Rightarrow> string"
  sprintf1 :: "rat \<Rightarrow> string"
  sprintf2 :: "rat \<Rightarrow> string"
  trimSpace :: "string \<Rightarrow> string"
  timeParse :: "string \<Rightarrow> time option"
  timeFormat :: "time \<Rightarrow> string"
  base64Decode :: "string \<Rightarrow> byte list option"
  resizeLinear :: "rgbaImage \<Rightarrow> int \<Rightarrow> int \<Rightarrow> rgbaImage"
  toLower :: "string \<Rightarrow> string"

datatype error = OpenError | StatError | UniqueViolation | ReadDirError

text \<open>The conversion \<open>int(val)\<close> of a \<open>float64\<close> truncates towards zero.\<close>

definition truncateFloat :: "rat \<Rightarrow> int" where
  "truncateFloat v = (if v \<ge> 0 then \<lfloor>v\<rfloor> else \<lceil>v\<rceil>)"

definition getString :: "golib \<Rightarrow> (string \<rightharpoonup> jsonValue) \<Rightarrow> string \<Rightarrow> string" where
  "getString lib data key =
     (case data key of
        Some (JString val) \<Rightarrow> trimSpace lib val
      | Some (JNumber val) \<Rightarrow>
          if val = of_int (truncateFloat val) then itoa lib (truncateFloat val)
          else sprintf2 lib val
      | _ \<Rightarrow> [])"

definition getFloat :: "golib \<Rightarrow> (string \<rightharpoonup> jsonValue) \<Rightarrow> string \<Rightarrow> rat" where
  "getFloat lib data key =
     (case data key of
        Some (JNumber val) \<Rightarrow> val
      | Some (JString val) \<Rightarrow> (case parseFloat lib val of Some f \<Rightarrow> f | None \<Rightarrow> 0)
      | _ \<Rightarrow> 0)"

definition getInt :: "golib \<Rightarrow> (string \<rightharpoonup> jsonValue) \<Rightarrow> string \<Rightarrow> int" where
  "getInt lib data key =
     (case data key of
        Some (JNumber val) \<Rightarrow> truncateFloat val
      | Some (JString val) \<Rightarrow> (case atoi lib val of Some i \<Rightarrow> i | None \<Rightarrow> 0)
      | _ \<Rightarrow> 0)"

fun joinStrings :: "string list \<Rightarrow> string \<Rightarrow> string" where
  "joinStrings [] sep = []"
| "joinStrings [x] sep = x"
| "joinStrings (x # y # ys) sep = x @ sep @ joinStrings (y # ys) sep"

text \<open>\<open>decodeFlash\<close> of the file that has both strategies. On Go's \<open>int\<close>,
  \<open>val & 1\<close> and \<open>(val >> 3) & 3\<close> are two's-complement operations, as \<open>AND\<close> and
  \<open>drop_bit\<close> are on \<open>int\<close>.\<close>

definition decodeFlash :: "int \<Rightarrow> string" where
  "decodeFlash val =
     (let fired = (val AND 1 = 1);
          mode = (drop_bit 3 val) AND 3;
          parts = (if fired then [''Fired''] else [''Did not fire'']);
          parts = (if mode = 1 then parts @ [''compulsory'']
                   else if mode = 2 then parts @ [''suppressed'']
                   else if mode = 3 then parts @ [''auto'']
                   else parts)
      in joinStrings parts '', '')"

text \<open>\<open>decodeFlash\<close> of the other version of the file, which has the built-in decoder
  only and no external tool.\<close>

definition decodeFlashFiredOnly :: "int \<Rightarrow> string" where
  "decodeFlashFiredOnly val = (if val AND 1 = 0 then ''Did not fire'' else ''Fired'')"

text \<open>The statements of \<open>extractWithExiftool\<close> that fill the three fields.\<close>

definition exiftoolExposureComp :: "golib \<Rightarrow> (string \<rightharpoonup> jsonValue) \<Rightarrow> string" where
  "exiftoolExposureComp lib data =
     (let ec = getFloat lib data ''ExifIFD:ExposureCompensation'' in
      if ec \<noteq> 0 then
        (if ec \<ge> 0 then ''+'' @ sprintf1 lib ec @ '' EV''
         else sprintf1 lib ec @ '' EV'')
      else ''0 EV'')"

definition exiftoolFlash :: "golib \<Rightarrow> (string \<rightharpoonup> jsonValue) \<Rightarrow> string" where
  "exiftoolFlash lib data = decodeFlash (getInt lib data ''ExifIFD:Flash'')"

definition exiftoolDateTime :: "golib \<Rightarrow> (string \<rightharpoonup> jsonValue) \<Rightarrow> time \<times> string" where
  "exiftoolDateTime lib data =
     (let dto = getString lib data ''ExifIFD:DateTimeOriginal'' in
      if dto \<noteq> [] then
        (case timeParse lib dto of
           Some t \<Rightarrow> (t, timeFormat lib t)
         | None \<Rightarrow> (zeroTime, []))
      else (zeroTime, []))"

text \<open>The statements of \<open>extractWithGoexif\<close> that fill the three fields.\<close>

definition goexifExposureComp :: "golib \<Rightarrow> exifTags \<Rightarrow> string" where
  "goexifExposureComp lib x =
     (case ExposureBiasValue x of
        Some (num, denom) \<Rightarrow>
          if denom \<noteq> 0 then
            (let val = (of_int num / of_int denom :: rat) in
             if val \<ge> 0 then ''+'' @ sprintf1 lib val @ '' EV''
             else sprintf1 lib val @ '' EV'')
          else []
      | None \<Rightarrow> [])"

definition goexifFlash :: "exifTags \<Rightarrow> string" where
  "goexifFlash x = (case FlashTag x of Some val \<Rightarrow> decodeFlash val | None \<Rightarrow> [])"

definition goexifDateTime :: "golib \<Rightarrow> exifTags \<Rightarrow> time \<times> string" where
  "goexifDateTime lib x =
     (case DateTimeTag x of Some tm \<Rightarrow> (tm, timeFormat lib tm) | None \<Rightarrow> (zeroTime, []))"

definition extractWithGoexif ::
  "golib \<Rightarrow> filesystem \<Rightarrow> string \<Rightarrow> ExifInfo option \<times> time \<times> error option" where
  "extractWithGoexif lib fs path =
     (case fs path of
        None \<Rightarrow> (None, zeroTime, Some OpenError)
      | Some f \<Rightarrow>
          (case exifDecode lib f of
             None \<Rightarrow> (Some emptyExifInfo, zeroTime, None)
           | Some x \<Rightarrow>
               let (takenAt, dto) = goexifDateTime lib x in
               (Some \<lparr>ExposureComp = goexifExposureComp lib x, Flash = goexifFlash x,
                       DateTimeOriginal = dto\<rparr>, takenAt, None)))"

definition extractWithExiftool ::
  "golib \<Rightarrow> filesystem \<Rightarrow> string \<Rightarrow> ExifInfo option \<times> time \<times> error option" where
  "extractWithExiftool lib fs path =
     (case exiftoolOutput lib path of
        None \<Rightarrow> extractWithGoexif lib fs path
      | Some output \<Rightarrow>
          (case jsonUnmarshal lib output of
             None \<Rightarrow> extractWithGoexif lib fs path
           | Some results \<Rightarrow>
               if length results = 0 then extractWithGoexif lib fs path
               else
                 let data = results ! 0;
                     (takenAt, dto) = exiftoolDateTime lib data in
                 (Some \<lparr>ExposureComp = exiftoolExposureComp lib data,
                         Flash = exiftoolFlash lib data,
                         DateTimeOriginal = dto\<rparr>, takenAt, None)))"

definition Extract ::
  "golib \<Rightarrow> bool \<Rightarrow> filesystem \<Rightarrow> string \<Rightarrow> ExifInfo option \<times> time \<times> error option" where
  "Extract lib hasExiftool fs path =
     (if hasExiftool then extractWithExiftool lib fs path
      else extractWithGoexif lib fs path)"

text \<open>\<open>GeneratePlaceholder\<close>: \<open>base64Decode\<close> is \<open>None\<close> when
  \<open>base64.StdEncoding.DecodeString\<close> returns an error, and \<open>resizeLinear\<close> stands for
  \<open>imaging.Resize\<close> with the linear filter.\<close>

definition GeneratePlaceholder ::
  "golib \<Rightarrow> string \<Rightarrow> int \<Rightarrow> int \<Rightarrow> rgbaImage \<times> error option" where
  "GeneratePlaceholder lib blurhash width height =
     (let decoded = base64Decode lib blurhash in
      if decoded = None \<or> length (the decoded) < 48 then
        (fillLoop (NewRGBA (imageRect 0 0 width height)) width height (\<lambda>x y. gray), None)
      else
        let data = the decoded;
            tiny = fillLoop (NewRGBA (imageRect 0 0 4 4)) 4 4
                     (\<lambda>x y. let idx = nat ((y * 4 + x) * 3)
                            in (data ! idx, data ! (idx + 1), data ! (idx + 2), 255))
        in (resizeLinear lib tiny width height, None))"

text \<open>The pixel bytes of an image whose first \<open>k\<close> pixels, in row order, have been
  set by \<open>fillLoop\<close>, and the image in that state.\<close>

definition colorBytes :: "rgba \<Rightarrow> byte list" where
  "colorBytes c = (case c of (r, g, b, a) \<Rightarrow> [r, g, b, a])"

definition pixBytes :: "(int \<Rightarrow> int \<Rightarrow> rgba) \<Rightarrow> nat \<Rightarrow> nat \<Rightarrow> byte list" where
  "pixBytes colorAt W k =
     concat (map (\<lambda>j. colorBytes (colorAt (int (j mod W)) (int (j div W)))) [0..<k])"

definition partlyFilled :: "(int \<Rightarrow> int \<Rightarrow> rgba) \<Rightarrow> nat \<Rightarrow> nat \<Rightarrow> nat \<Rightarrow> rgbaImage" where
  "partlyFilled colorAt W H k =
     \<lparr>Pix = pixBytes colorAt W k @ replicate (4 * (W * H - k)) 0, Stride = 4 * int W,
      RectMin = (0, 0), RectMax = (int W, int H)\<rparr>"

section \<open>URL slug generator\<close>

text \<open>
  Paths and slugs are Go strings, that is byte sequences. \<open>strings.ToLower\<close> is a
  parameter (\<open>toLower\<close>). The function given to \<open>strings.Map\<close> keeps the ASCII
  characters \<open>a-z\<close>, \<open>0-9\<close>, \<open>/\<close>, \<open>.\<close>, \<open>-\<close> and \<open>_\<close>, turns a space
  into a hyphen and drops every other rune; every byte of a rune outside ASCII (and
  every byte that is not valid UTF-8) is at least 128, so on bytes \<open>mapRunes\<close> does
  the same. \<open>collapseHyphens\<close> is the replacement of every match of the regular
  expression \<open>-+\<close> by one hyphen, \<open>trimHyphens\<close> is \<open>strings.Trim(s, "-")\<close>,
  \<open>splitSlash\<close> is \<open>strings.Split(s, "/")\<close> and \<open>joinStrings\<close> is
  \<open>strings.Join\<close>.
\<close>

definition runeBetween :: "char \<Rightarrow> char \<Rightarrow> char \<Rightarrow> bool" where
  "runeBetween lo hi r = ((of_char lo :: nat) \<le> of_char r \<and> (of_char r :: nat) \<le> of_char hi)"

definition allowedRune :: "char \<Rightarrow> bool" where
  "allowedRune r =
     (runeBetween CHR ''a'' CHR ''z'' r \<or> runeBetween CHR ''0'' CHR ''9'' r
      \<or> r = CHR ''/'' \<or> r = CHR ''.'' \<or> r = CHR ''-'' \<or> r = CHR ''_'')"

fun mapRunes :: "string \<Rightarrow> string" where
  "mapRunes [] = []"
| "mapRunes (r # rs) =
     (if allowedRune r then r # mapRunes rs
      else if r = CHR '' '' then CHR ''-'' # mapRunes rs
      else mapRunes rs)"

fun collapseHyphens :: "string \<Rightarrow> string" where
  "collapseHyphens (c # d # cs) =
     (if c = CHR ''-'' \<and> d = CHR ''-'' then collapseHyphens (d # cs)
      else c # collapseHyphens (d # cs))"
| "collapseHyphens cs = cs"

definition trimHyphens :: "string \<Rightarrow> string" where
  "trimHyphens s = rev (dropWhile (\<lambda>c. c = CHR ''-'') (rev (dropWhile (\<lambda>c. c = CHR ''-'') s)))"

fun splitSlash :: "string \<Rightarrow> string list" where
  "splitSlash [] = [[]]"
| "splitSlash (c # cs) =
     (if c = CHR ''/'' then [] # splitSlash cs
      else (case splitSlash cs of p # ps \<Rightarrow> (c # p) # ps | [] \<Rightarrow> [[c]]))"

definition sanitizeURLPath :: "golib \<Rightarrow> string \<Rightarrow> string" where
  "sanitizeURLPath lib path =
     (let path = toLower lib path;
          path = mapRunes path;
          path = collapseHyphens path;
          path = trimHyphens path;
          parts = splitSlash path;
          parts = map trimHyphens parts;
          path = joinStrings parts ''/''
      in path)"

text \<open>What the slug is shown to satisfy: no two hyphens in a row, and no hyphen at
  either end of a string.\<close>

fun noDoubleHyphen :: "string \<Rightarrow> bool" where
  "noDoubleHyphen (c # d # cs) = (\<not> (c = CHR ''-'' \<and> d = CHR ''-'') \<and> noDoubleHyphen (d # cs))"
| "noDoubleHyphen cs = True"

definition trimmedSegment :: "string \<Rightarrow> bool" where
  "trimmedSegment seg = (seg = [] \<or> (hd seg \<noteq> CHR ''-'' \<and> last seg \<noteq> CHR ''-''))"

text \<open>\<open>strings.TrimRight(s, "-")\<close>, the right half of \<open>strings.Trim(s, "-")\<close>.\<close>

definition trimRight :: "string \<Rightarrow> string" where
  "trimRight s = rev (dropWhile (\<lambda>c. c = CHR ''-'') (rev s))"

text \<open>\<open>filepath.Ext\<close>: the suffix of the last path element that starts at its last
  dot, empty when that element has no dot. \<open>strings.TrimSuffix\<close> removes it.\<close>

definition Ext :: "string \<Rightarrow> string" where
  "Ext path =
     (let lastElem = takeWhile (\<lambda>c. c \<noteq> CHR ''/'') (rev path) in
      if CHR ''.'' \<in> set lastElem
      then CHR ''.'' # rev (takeWhile (\<lambda>c. c \<noteq> CHR ''.'') lastElem)
      else [])"

definition TrimSuffix :: "string \<Rightarrow> string \<Rightarrow> string" where
  "TrimSuffix s suffix =
     (if drop (length s - length suffix) s = suffix \<and> length suffix \<le> length s
      then take (length s - length suffix) s else s)"

text \<open>\<open>%d\<close> of \<open>fmt.Sprintf\<close>: the decimal digits of the number, after a minus sign
  when it is negative.\<close>

fun digitsOf :: "nat \<Rightarrow> string" where
  "digitsOf n =
     (if n < 10 then [char_of (48 + n)] else digitsOf (n div 10) @ [char_of (48 + n mod 10)])"

declare digitsOf.simps [simp del]

definition formatInt :: "int \<Rightarrow> string" where
  "formatInt i = (if i < 0 then ''-'' @ digitsOf (nat (- i)) else digitsOf (nat i))"

subsection \<open>The slug, described by the words of each path segment\<close>

text \<open>
  The definitions of this subsection do not follow the code; that \<open>sanitizeURLPath\<close>
  computes \<open>specSlug\<close> of the lower-cased path is a theorem. Of a path segment (the
  text between two path separators) the characters of \<open>slugAlphabet\<close> and the space
  are kept and every other character is deleted; hyphens and spaces separate words; the slug
  of the segment is its non-empty words joined by single hyphens; and the slug of a path
  is the slugs of its segments joined by the path separator.
\<close>

definition slugAlphabet :: string where
  "slugAlphabet = ''abcdefghijklmnopqrstuvwxyz0123456789/.-_''"

definition keptRune :: "char \<Rightarrow> bool" where
  "keptRune c = (c \<in> set slugAlphabet \<or> c = CHR '' '')"

definition hyphenLike :: "char \<Rightarrow> bool" where
  "hyphenLike c = (c = CHR ''-'' \<or> c = CHR '' '')"

fun splitOn :: "(char \<Rightarrow> bool) \<Rightarrow> string \<Rightarrow> string list" where
  "splitOn P [] = [[]]"
| "splitOn P (c # cs) =
     (if P c then [] # splitOn P cs
      else (case splitOn P cs of p # ps \<Rightarrow> (c # p) # ps | [] \<Rightarrow> [[c]]))"

definition slugWords :: "string \<Rightarrow> string list" where
  "slugWords seg = filter (\<lambda>w. w \<noteq> []) (splitOn hyphenLike (filter keptRune seg))"

definition slugSegment :: "string \<Rightarrow> string" where
  "slugSegment seg = joinStrings (slugWords seg) ''-''"

definition specSlug :: "string \<Rightarrow> string" where
  "specSlug lowered = joinStrings (map slugSegment (splitSlash lowered)) ''/''"


section \<open>Catalog and scanner\<close>

text \<open>
  The two tables of the catalog, as lists of rows in insertion order, and the two
  \<open>SERIAL\<close> sequences. Of the schema the model keeps the \<open>UNIQUE\<close> constraints on
  \<open>folders.path\<close>, \<open>photos.path\<close> and \<open>photos.url_path\<close>; the database is taken
  to be available, so a statement fails only when it violates one of them. \<open>events\<close>
  records the work done on files (in order), \<open>logged\<close> the paths for which the
  scanner logged an error.
\<close>

record folderRow =
  folderId :: nat
  parentId :: "nat option"
  folderName :: string
  folderPath :: string

record photoRow =
  photoId :: nat
  photoFolder :: "nat option"
  photoFilename :: string
  photoPath :: string
  urlPath :: "string option"
  photoWidth :: int
  photoHeight :: int
  sizeBytes :: int
  photoBlurhash :: string
  photoExif :: "string option"
  photoTakenAt :: "time option"

datatype event =
    EvStripGPS string
  | EvExtract string
  | EvDimensions string
  | EvBlurhash string
  | EvThumbnail nat string string

record world =
  folders :: "folderRow list"
  photos :: "photoRow list"
  folderSeq :: nat
  photoSeq :: nat
  events :: "event list"
  logged :: "string list"

text \<open>What the scanner asks of the file system and of the other services for a file,
  by its path relative to the media root; \<open>clock\<close> is \<open>time.Now().UnixNano()\<close>.\<close>

record services =
  statFile :: "string \<Rightarrow> int option"
  extractMeta :: "string \<Rightarrow> string option \<times> time"
  imageDimensions :: "string \<Rightarrow> int \<times> int"
  generateBlurhash :: "string \<Rightarrow> string"
  clock :: int
  stdlib :: golib

definition urlPathExists :: "world \<Rightarrow> string \<Rightarrow> bool" where
  "urlPathExists w u = (Some u \<in> set (map urlPath (photos w)))"


definition photoPathExists :: "world \<Rightarrow> string \<Rightarrow> bool" where
  "photoPathExists w p = (p \<in> set (map photoPath (photos w)))"

definition folderByPath :: "world \<Rightarrow> string \<Rightarrow> folderRow option" where
  "folderByPath w p = find (\<lambda>r. folderPath r = p) (folders w)"

text \<open>\<open>fmt.Sprintf("%s-%d%s", base, n, ext)\<close>.\<close>

definition sprintfCandidate :: "string \<Rightarrow> int \<Rightarrow> string \<Rightarrow> string" where
  "sprintfCandidate base n ext = base @ ''-'' @ formatInt n @ ext"

text \<open>The loop \<open>for i := 1; i < 10000; i++\<close> of \<open>generateURLPath\<close>; \<open>None\<close> when
  it ends without returning.\<close>

function candidateLoop :: "world \<Rightarrow> string \<Rightarrow> string \<Rightarrow> nat \<Rightarrow> string option" where
  "candidateLoop w base ext i =
     (if i < 10000 then
        (let candidate = sprintfCandidate base (int i) ext in
         if \<not> urlPathExists w candidate then Some candidate
         else candidateLoop w base ext (i + 1))
      else None)"
  by pat_completeness auto
termination
  by (relation "measure (\<lambda>(w, base, ext, i). 10000 - i)") auto

declare candidateLoop.simps [simp del]

definition generateURLPath :: "services \<Rightarrow> world \<Rightarrow> string \<Rightarrow> string" where
  "generateURLPath svc w filePath =
     (let urlPath = sanitizeURLPath (stdlib svc) filePath in
      if \<not> urlPathExists w urlPath then urlPath
      else
        let ext = Ext urlPath;
            base = TrimSuffix urlPath ext
        in (case candidateLoop w base ext 1 of
              Some candidate \<Rightarrow> candidate
            | None \<Rightarrow> sprintfCandidate base (clock svc) ext))"

text \<open>\<open>filepath.Base\<close> and \<open>filepath.Join\<close> on the paths of the walk, whose
  elements are the non-empty names of directory entries, so that \<open>Clean\<close> changes
  nothing.\<close>

definition Base :: "string \<Rightarrow> string" where
  "Base path = rev (takeWhile (\<lambda>c. c \<noteq> CHR ''/'') (rev path))"

definition joinPath :: "string \<Rightarrow> string \<Rightarrow> string" where
  "joinPath relPath name = (if relPath = [] then name else relPath @ ''/'' @ name)"

text \<open>
  \<open>INSERT INTO photos ... ON CONFLICT (path) DO UPDATE SET url_path =
  COALESCE(photos.url_path, EXCLUDED.url_path) RETURNING id\<close>. The sequence advances
  whether or not the statement succeeds.
\<close>

definition insertPhoto :: "world \<Rightarrow> photoRow \<Rightarrow> world \<times> (error + nat)" where
  "insertPhoto w row =
     (let w = w\<lparr>photoSeq := photoSeq w + 1\<rparr> in
      case find (\<lambda>r. photoPath r = photoPath row) (photos w) of
        Some old \<Rightarrow>
          (case urlPath old of
             Some u \<Rightarrow> (w, Inr (photoId old))
           | None \<Rightarrow>
               if urlPath row \<noteq> None \<and> urlPath row \<in> set (map urlPath (photos w))
               then (w, Inl UniqueViolation)
               else (w\<lparr>photos := map (\<lambda>r. if photoPath r = photoPath row
                                           then r\<lparr>urlPath := urlPath row\<rparr> else r) (photos w)\<rparr>,
                     Inr (photoId old)))
      | None \<Rightarrow>
          if urlPath row \<noteq> None \<and> urlPath row \<in> set (map urlPath (photos w))
          then (w, Inl UniqueViolation)
          else (w\<lparr>photos := photos w @ [row]\<rparr>, Inr (photoId row)))"

definition processPhoto :: "services \<Rightarrow> world \<Rightarrow> string \<Rightarrow> nat option \<Rightarrow> world \<times> error option" where
  "processPhoto svc w relPath folderID =
     (if photoPathExists w relPath then (w, None)
      else
        (case statFile svc relPath of
           None \<Rightarrow> (w, Some StatError)
         | Some fileSize \<Rightarrow>
             let w = w\<lparr>events := events w @ [EvStripGPS relPath, EvExtract relPath,
                                            EvDimensions relPath, EvBlurhash relPath]\<rparr>;
                 (exifJSON, taken) = extractMeta svc relPath;
                 (width, height) = imageDimensions svc relPath;
                 hash = generateBlurhash svc relPath;
                 takenAtPtr = (if taken = zeroTime then None else Some taken);
                 url = generateURLPath svc w relPath;
                 row = \<lparr>photoId = photoSeq w, photoFolder = folderID, photoFilename = Base relPath,
                        photoPath = relPath, urlPath = Some url, photoWidth = width,
                        photoHeight = height, sizeBytes = fileSize, photoBlurhash = hash,
                        photoExif = exifJSON, photoTakenAt = takenAtPtr\<rparr>
             in (case insertPhoto w row of
                   (w, Inl err) \<Rightarrow> (w, Some err)
                 | (w, Inr photoID) \<Rightarrow>
                     (w\<lparr>events := events w @ [EvThumbnail photoID relPath ''small'',
                                               EvThumbnail photoID relPath ''medium'',
                                               EvThumbnail photoID relPath ''large'']\<rparr>, None))))"

text \<open>\<open>ensureFolder\<close>: the \<open>SELECT\<close> by path, and when it finds no row the
  \<open>INSERT ... ON CONFLICT (path) DO UPDATE SET name = EXCLUDED.name RETURNING id\<close>.\<close>

definition ensureFolder :: "world \<Rightarrow> string \<Rightarrow> string \<Rightarrow> nat option \<Rightarrow> world \<times> nat" where
  "ensureFolder w path name parentID =
     (case folderByPath w path of
        Some r \<Rightarrow> (w, folderId r)
      | None \<Rightarrow>
          (let w = w\<lparr>folderSeq := folderSeq w + 1\<rparr> in
           case folderByPath w path of
             Some r \<Rightarrow>
               (w\<lparr>folders := map (\<lambda>f. if folderPath f = path then f\<lparr>folderName := name\<rparr> else f)
                                 (folders w)\<rparr>, folderId r)
           | None \<Rightarrow>
               (w\<lparr>folders := folders w @
                    [\<lparr>folderId = folderSeq w - 1, parentId = parentID, folderName = name,
                      folderPath = path\<rparr>]\<rparr>, folderSeq w - 1)))"

text \<open>What \<open>os.ReadDir\<close> finds: files, directories with their entries, and directories
  that cannot be read.\<close>

datatype entry = File string | Dir string "entry list" | Unreadable string

definition hiddenName :: "string \<Rightarrow> bool" where
  "hiddenName name = (take 1 name = ''.'')"

definition isImageFile :: "golib \<Rightarrow> string \<Rightarrow> bool" where
  "isImageFile lib name =
     (let ext = toLower lib (Ext name) in ext = ''.jpg'' \<or> ext = ''.jpeg'' \<or> ext = ''.png'')"

text \<open>\<open>scanDir\<close> after a successful \<open>os.ReadDir\<close>: the loop over the entries. An
  error of \<open>processPhoto\<close> or of the recursive \<open>scanDir\<close> is logged and the loop
  goes on.\<close>

fun scanDir :: "services \<Rightarrow> string \<Rightarrow> nat option \<Rightarrow> entry list \<Rightarrow> world \<Rightarrow> world" where
  "scanDir svc relPath parentID [] w = w"
| "scanDir svc relPath parentID (File name # entries) w =
     scanDir svc relPath parentID entries
       (if hiddenName name then w
        else if isImageFile (stdlib svc) name then
          (case processPhoto svc w (joinPath relPath name) parentID of
             (w, None) \<Rightarrow> w
           | (w, Some err) \<Rightarrow> w\<lparr>logged := logged w @ [joinPath relPath name]\<rparr>)
        else w)"
| "scanDir svc relPath parentID (Dir name children # entries) w =
     scanDir svc relPath parentID entries
       (if hiddenName name then w
        else
          (case ensureFolder w (joinPath relPath name) name parentID of
             (w, folderID) \<Rightarrow> scanDir svc (joinPath relPath name) (Some folderID) children w))"
| "scanDir svc relPath parentID (Unreadable name # entries) w =
     scanDir svc relPath parentID entries
       (if hiddenName name then w
        else
          (case ensureFolder w (joinPath relPath name) name parentID of
             (w, folderID) \<Rightarrow> w\<lparr>logged := logged w @ [joinPath relPath name]\<rparr>))"






text \<open>
  For stating idempotence: a list of directory entries under \<open>relPath\<close> is catalogued
  in a world when every directory that is not hidden can be read and has a folder row
  with its path, its entries being catalogued in turn, and every image file that is not
  hidden has a photo row with its path. A world extends another when its tables and its
  log have the other's rows as a prefix.
\<close>

fun catalogued :: "golib \<Rightarrow> world \<Rightarrow> string \<Rightarrow> entry list \<Rightarrow> bool" where
  "catalogued lib w relPath [] = True"
| "catalogued lib w relPath (File name # entries) =
     ((hiddenName name \<or> \<not> isImageFile lib name \<or> photoPathExists w (joinPath relPath name))
      \<and> catalogued lib w relPath entries)"
| "catalogued lib w relPath (Dir name children # entries) =
     ((hiddenName name \<or> (folderByPath w (joinPath relPath name) \<noteq> None
                           \<and> catalogued lib w (joinPath relPath name) children))
      \<and> catalogued lib w relPath entries)"
| "catalogued lib w relPath (Unreadable name # entries) =
     (hiddenName name \<and> catalogued lib w relPath entries)"

definition extends :: "world \<Rightarrow> world \<Rightarrow> bool" where
  "extends w w' =
     ((\<exists>fs. folders w' = folders w @ fs) \<and> (\<exists>ps. photos w' = photos w @ ps)
      \<and> (\<exists>l. logged w' = logged w @ l))"

section \<open>A concrete library\<close>

text \<open>For evaluating the model: no external tool, a decoder that finds no EXIF data,
  decimal formatting with one digit after the point, and lower-casing of ASCII letters
  (which is what \<open>strings.ToLower\<close> does on an ASCII string).\<close>

definition formatTenths :: "rat \<Rightarrow> string" where
  "formatTenths v =
     (let t = nat \<lfloor>\<bar>v\<bar> * 10 + 1 / 2\<rfloor> in
      (if v < 0 then ''-'' else []) @ digitsOf (t div 10) @ ''.'' @ digitsOf (t mod 10))"

definition asciiLower :: "char \<Rightarrow> char" where
  "asciiLower c =
     (if runeBetween CHR ''A'' CHR ''Z'' c then char_of (of_char c + (32::nat)) else c)"

definition plainLib :: golib where
  "plainLib =
     \<lparr>exifDecode = (\<lambda>f. None), exiftoolOutput = (\<lambda>p. None), jsonUnmarshal = (\<lambda>s. None),
      atoi = (\<lambda>s. None), parseFloat = (\<lambda>s. None), itoa = formatInt,
      sprintf1 = formatTenths, sprintf2 = formatTenths, trimSpace = (\<lambda>s. s),
      timeParse = (\<lambda>s. None), timeFormat = (\<lambda>t. []), base64Decode = (\<lambda>s. None),
      resizeLinear = (\<lambda>img w h. img), toLower = map asciiLower\<rparr>"

definition emptyWorld :: world where
  "emptyWorld =
     \<lparr>folders = [], photos = [], folderSeq = 1, photoSeq = 1, events = [], logged = []\<rparr>"

definition plainServices :: services where
  "plainServices =
     \<lparr>statFile = (\<lambda>p. Some 1000), extractMeta = (\<lambda>p. (None, zeroTime)),
      imageDimensions = (\<lambda>p. (0, 0)), generateBlurhash = (\<lambda>p. []),
      clock = 1700000000000000000, stdlib = plainLib\<rparr>"


definition tripsTree :: "entry list" where
  "tripsTree =
     [Dir ''Trips''
        [Dir ''2024 Paris'' [File ''IMG_0001.JPG'', File ''.hidden.jpg'', File ''notes.txt'']]]"

text \<open>
  A small photo: a JFIF segment, and an EXIF segment whose little-endian IFD0 has two
  entries, the camera make and the GPS-IFD pointer; \<open>strippedSegment\<close> is the EXIF
  segment with the twelve bytes of the pointer entry zero.
\<close>

definition jfifSegment :: segment where
  "jfifSegment = (0xE0, [0x4A, 0x46, 0x49, 0x46, 0x00, 0x01, 0x01, 0x00, 0x00, 0x01, 0x00, 0x01, 0x00, 0x00])"

definition gpsSegment :: segment where
  "gpsSegment =
     (0xE1, [0x45, 0x78, 0x69, 0x66, 0x00, 0x00,
             0x49, 0x49, 0x2A, 0x00, 0x08, 0x00, 0x00, 0x00,
             0x02, 0x00,
             0x0F, 0x01, 0x02, 0x00, 0x04, 0x00, 0x00, 0x00, 0x41, 0x42, 0x43, 0x00,
             0x25, 0x88, 0x04, 0x00, 0x01, 0x00, 0x00, 0x00, 0x26, 0x00, 0x00, 0x00,
             0x00, 0x00, 0x00, 0x00])"

definition strippedSegment :: segment where
  "strippedSegment =
     (0xE1, [0x45, 0x78, 0x69, 0x66, 0x00, 0x00,
             0x49, 0x49, 0x2A, 0x00, 0x08, 0x00, 0x00, 0x00,
             0x02, 0x00,
             0x0F, 0x01, 0x02, 0x00, 0x04, 0x00, 0x00, 0x00, 0x41, 0x42, 0x43, 0x00,
             0x00, 0x00, 0x00, 0x00, 0x00, 0x00, 0x00, 0x00, 0x00, 0x00, 0x00, 0x00,
             0x00, 0x00, 0x00, 0x00])"

text \<open>
  The same EXIF segment in a stream that has one fill byte \<open>FF\<close> before the APP1
  marker, which the JPEG standard allows before any marker, followed by a Start-Of-Scan
  marker, 57600 bytes of scan data and the End-Of-Image marker.
\<close>

definition paddedPhoto :: "byte list" where
  "paddedPhoto =
     [0xFF, 0xD8] @ [0xFF] @ encodeSegment gpsSegment @ [0xFF, 0xDA]
     @ replicate 57600 0 @ [0xFF, 0xD9]"

section \<open>Theorems\<close>

lemma stripWalk_oversized_segment:
  assumes "pos < length data - 1" "data ! pos = 0xFF"
    "data ! (pos + 1) \<noteq> 0xD9" "data ! (pos + 1) \<noteq> 0xDA" "pos + 4 \<le> length data"
    "pos + uint16 BigEndian (data ! (pos + 2)) (data ! (pos + 3)) + 2 > length data + slack"
  shows "stripWalk slack data pos result modified = None"
  using assms by (subst stripWalk.simps) (simp add: Let_def sliceTo_def)

text \<open>
  C10. The claim: on every input, truncated or adversarial ones included, every slice
  index of the GPS-stripping routines is checked against the buffer before use, so
  \<open>StripGPS\<close> returns normally. The code does not check the declared segment length:
  on the six-byte file \<open>FF D8 FF E0 FF FF\<close> (a segment that declares 65535 bytes and
  has none), read into the 512-byte buffer that \<open>os.ReadFile\<close> allocates for a small
  file, the slice expression \<open>data[pos : pos+segLen]\<close> is \<open>data[2:65539]\<close> and the
  program panics.
\<close>

theorem StripGPS_truncated_segment_panics:
  "StripGPS 506 [''photo.jpg'' \<mapsto> [0xFF, 0xD8, 0xFF, 0xE0, 0xFF, 0xFF]] ''photo.jpg'' = Panic"
proof -
  have "stripWalk 506 [0xFF, 0xD8, 0xFF, 0xE0, 0xFF, 0xFF] 2 [0xFF, 0xD8] False = None"
    by (rule stripWalk_oversized_segment) (simp_all add: uint16_def)
  then show ?thesis
    by (simp add: StripGPS_def stripGPSFromJPEG_def)
qed

subsection \<open>Metadata extraction\<close>

lemma joinStrings_two: "joinStrings [a, b] sep = a @ sep @ b"
  by simp

lemma decodeFlash_bits:
  "decodeFlash val =
     (if odd val then ''Fired'' else ''Did not fire'') @
     (if val div 8 mod 4 = 1 then '', compulsory''
      else if val div 8 mod 4 = 2 then '', suppressed''
      else if val div 8 mod 4 = 3 then '', auto''
      else [])"
proof -
  have fired: "(val AND 1 = 1) = odd val"
    by (simp add: and_one_eq mod_2_eq_odd)
  have mode: "(drop_bit 3 val) AND 3 = val div 8 mod 4"
    using take_bit_eq_mask [of 2 "drop_bit 3 val"]
    by (simp add: drop_bit_eq_div take_bit_eq_mod mask_eq_exp_minus_1)
  show ?thesis
    unfolding decodeFlash_def Let_def fired mode by simp
qed

text \<open>
  C7 (as the code has it). The claim: the rich strategy decodes the flash value from bit 0
  plus the mode of bits 3 and 4, the built-in strategy from bit 0 only. In the file with
  both strategies, \<open>extractWithExiftool\<close> and \<open>extractWithGoexif\<close> call the same
  \<open>decodeFlash\<close>: for every tag value both report fired or not fired from bit 0,
  followed by the mode of bits 3 and 4 (1 compulsory, 2 suppressed, 3 auto, 0 nothing).
\<close>

theorem flash_decode_shared_by_both_strategies:
  "goexifFlash (x\<lparr>FlashTag := Some val\<rparr>) = decodeFlash val
   \<and> exiftoolFlash lib (data(''ExifIFD:Flash'' \<mapsto> JNumber (of_int val))) = decodeFlash val
   \<and> decodeFlash val =
       (if odd val then ''Fired'' else ''Did not fire'') @
       (if val div 8 mod 4 = 1 then '', compulsory''
        else if val div 8 mod 4 = 2 then '', suppressed''
        else if val div 8 mod 4 = 3 then '', auto''
        else [])"
proof -
  have "truncateFloat (of_int val) = val"
    by (simp add: truncateFloat_def)
  then have "exiftoolFlash lib (data(''ExifIFD:Flash'' \<mapsto> JNumber (of_int val))) = decodeFlash val"
    by (simp add: exiftoolFlash_def getInt_def)
  moreover have "goexifFlash (x\<lparr>FlashTag := Some val\<rparr>) = decodeFlash val"
    by (simp add: goexifFlash_def)
  ultimately show ?thesis
    using decodeFlash_bits [of val] by simp
qed

text \<open>
  C7 as stated fails: for the tag value 9 (fired, compulsory mode) the built-in strategy
  reports the mode as well, where a decode from bit 0 only (the \<open>decodeFlash\<close> of the
  other version of the file) reports \<open>Fired\<close>.
\<close>

theorem builtin_flash_reports_mode:
  "goexifFlash \<lparr>ExposureBiasValue = None, FlashTag = Some 9, DateTimeTag = None\<rparr>
     = ''Fired, compulsory''
   \<and> decodeFlashFiredOnly 9 = ''Fired''"
proof -
  have "decodeFlash 9 = ''Fired, compulsory''"
    by (simp add: decodeFlash_bits)
  moreover have "(9::int) AND 1 = 1"
    by (simp add: and_one_eq)
  ultimately show ?thesis
    by (simp add: goexifFlash_def decodeFlashFiredOnly_def)
qed

text \<open>
  C8 (as the code has it). The claim: every exposure-compensation value is formatted with
  an explicit sign, \<open>+\<close> when it is greater than or equal to zero, in both strategies.
  The rich strategy formats a positive value as \<open>+\<close> followed by the value with one
  decimal and \<open>EV\<close>, a negative value as the value with one decimal (whose minus sign
  \<open>Sprintf\<close> writes) and \<open>EV\<close>, and the value zero, or a missing tag, as the fixed
  string \<open>0 EV\<close>. The built-in strategy formats every value greater than or equal to
  zero with a leading \<open>+\<close> and every negative value with the minus sign of \<open>Sprintf\<close>.
\<close>

theorem exposure_comp_sign:
  assumes minus: "\<And>v. v < 0 \<Longrightarrow> \<exists>s. sprintf1 lib v = CHR ''-'' # s"
    and ec: "getFloat lib data ''ExifIFD:ExposureCompensation'' = ec"
    and bias: "ExposureBiasValue x = Some (num, denom)" "denom \<noteq> 0"
  shows "(ec > 0 \<longrightarrow> exiftoolExposureComp lib data = ''+'' @ sprintf1 lib ec @ '' EV'')
    \<and> (ec = 0 \<longrightarrow> exiftoolExposureComp lib data = ''0 EV'')
    \<and> (ec < 0 \<longrightarrow> exiftoolExposureComp lib data = sprintf1 lib ec @ '' EV''
          \<and> hd (exiftoolExposureComp lib data) = CHR ''-'')
    \<and> (of_int num / of_int denom \<ge> (0::rat) \<longrightarrow>
          goexifExposureComp lib x = ''+'' @ sprintf1 lib (of_int num / of_int denom) @ '' EV'')
    \<and> (of_int num / of_int denom < (0::rat) \<longrightarrow>
          goexifExposureComp lib x = sprintf1 lib (of_int num / of_int denom) @ '' EV''
          \<and> hd (goexifExposureComp lib x) = CHR ''-'')"
proof -
  have rich_neg: "hd (sprintf1 lib ec @ '' EV'') = CHR ''-''" if "ec < 0"
    using minus [OF that] by auto
  have builtin_neg: "hd (sprintf1 lib (of_int num / of_int denom) @ '' EV'') = CHR ''-''"
    if "of_int num / of_int denom < (0::rat)"
    using minus [OF that] by auto
  show ?thesis
    using rich_neg builtin_neg ec bias
    by (auto simp: exiftoolExposureComp_def goexifExposureComp_def Let_def)
qed

lemma formatTenths_minus: "v < 0 \<Longrightarrow> \<exists>s. formatTenths v = CHR ''-'' # s"
  by (simp add: formatTenths_def Let_def)

theorem exposure_comp_sign_witness:
  "hd (exiftoolExposureComp plainLib [''ExifIFD:ExposureCompensation'' \<mapsto> JNumber (- 1)])
     = CHR ''-''
   \<and> goexifExposureComp plainLib
       \<lparr>ExposureBiasValue = Some (1, 3), FlashTag = None, DateTimeTag = None\<rparr>
     = ''+'' @ sprintf1 plainLib (of_int 1 / of_int 3) @ '' EV''"
proof -
  have minus: "\<And>v. v < 0 \<Longrightarrow> \<exists>s. sprintf1 plainLib v = CHR ''-'' # s"
    by (simp add: plainLib_def formatTenths_minus)
  have ec: "getFloat plainLib [''ExifIFD:ExposureCompensation'' \<mapsto> JNumber (- 1)]
      ''ExifIFD:ExposureCompensation'' = - 1"
    by (simp add: getFloat_def)
  have bias: "ExposureBiasValue \<lparr>ExposureBiasValue = Some (1, 3), FlashTag = None,
      DateTimeTag = None\<rparr> = Some (1, 3)" "(3::int) \<noteq> 0"
    by simp_all
  have neg: "(- 1 :: rat) < 0" and pos: "of_int 1 / of_int 3 \<ge> (0::rat)"
    by simp_all
  show ?thesis
    using exposure_comp_sign [of plainLib, OF minus ec bias] neg pos by blast
qed

text \<open>
  C8 as stated fails in the rich strategy at the value zero, which is greater than or
  equal to zero and is rendered without a sign and without a decimal.
\<close>

theorem rich_exposure_comp_zero_unsigned:
  "exiftoolExposureComp plainLib [''ExifIFD:ExposureCompensation'' \<mapsto> JNumber 0] = ''0 EV''
   \<and> hd (exiftoolExposureComp plainLib [''ExifIFD:ExposureCompensation'' \<mapsto> JNumber 0])
       \<noteq> CHR ''+''"
  by (simp add: exiftoolExposureComp_def getFloat_def)

text \<open>
  C3 (as the code has it). The claim: \<open>Extract\<close> never returns an error. It returns an
  error in one case only, when the built-in strategy (chosen at start-up, or reached
  because the external tool failed or printed nothing usable) cannot open the file: then
  the record is \<open>nil\<close> and the time is the zero value. Whenever the file can be opened
  there is no error and the record is not \<open>nil\<close>; when the built-in strategy opens the
  file and the EXIF decoder fails (a JPEG with no EXIF segment, for one), the record is
  empty and the time is the zero value.
\<close>

theorem Extract_error_only_when_file_cannot_be_opened:
  "(fs path \<noteq> None \<longrightarrow> (\<exists>info takenAt. Extract lib hasExiftool fs path = (Some info, takenAt, None)))
   \<and> (snd (snd (Extract lib hasExiftool fs path)) \<noteq> None \<longrightarrow>
        fs path = None \<and> Extract lib hasExiftool fs path = (None, zeroTime, Some OpenError))
   \<and> ((\<not> hasExiftool \<or> exiftoolOutput lib path = None
         \<or> (\<exists>output. exiftoolOutput lib path = Some output
              \<and> (jsonUnmarshal lib output = None \<or> jsonUnmarshal lib output = Some []))) \<longrightarrow>
        (\<forall>f. fs path = Some f \<and> exifDecode lib f = None \<longrightarrow>
           Extract lib hasExiftool fs path = (Some emptyExifInfo, zeroTime, None)))"
proof -
  have goexif_open: "\<exists>info takenAt. extractWithGoexif lib fs path = (Some info, takenAt, None)"
    if "fs path \<noteq> None"
    using that by (auto simp: extractWithGoexif_def Let_def split: option.splits prod.splits)
  have goexif_err: "fs path = None \<and> extractWithGoexif lib fs path = (None, zeroTime, Some OpenError)"
    if "snd (snd (extractWithGoexif lib fs path)) \<noteq> None"
    using that by (auto simp: extractWithGoexif_def Let_def split: option.splits prod.splits)
  have goexif_empty: "extractWithGoexif lib fs path = (Some emptyExifInfo, zeroTime, None)"
    if "fs path = Some f" "exifDecode lib f = None" for f
    using that by (simp add: extractWithGoexif_def)
  have p1: "fs path \<noteq> None \<longrightarrow>
      (\<exists>info takenAt. Extract lib hasExiftool fs path = (Some info, takenAt, None))"
    using goexif_open
    by (auto simp: Extract_def extractWithExiftool_def Let_def split: option.splits prod.splits)
  have p2: "snd (snd (Extract lib hasExiftool fs path)) \<noteq> None \<longrightarrow>
      fs path = None \<and> Extract lib hasExiftool fs path = (None, zeroTime, Some OpenError)"
    using goexif_err
    by (auto simp: Extract_def extractWithExiftool_def Let_def
        split: option.splits prod.splits if_splits)
  have p3: "(\<not> hasExiftool \<or> exiftoolOutput lib path = None
         \<or> (\<exists>output. exiftoolOutput lib path = Some output
              \<and> (jsonUnmarshal lib output = None \<or> jsonUnmarshal lib output = Some []))) \<longrightarrow>
        (\<forall>f. fs path = Some f \<and> exifDecode lib f = None \<longrightarrow>
           Extract lib hasExiftool fs path = (Some emptyExifInfo, zeroTime, None))"
    using goexif_empty
    by (auto simp: Extract_def extractWithExiftool_def Let_def split: option.splits)
  from p1 p2 p3 show ?thesis by blast
qed

theorem Extract_error_only_when_file_cannot_be_opened_witness:
  "Extract plainLib True [''plain.jpg'' \<mapsto> [0xFF, 0xD8, 0xFF, 0xD9]] ''plain.jpg''
     = (Some emptyExifInfo, zeroTime, None)"
  using Extract_error_only_when_file_cannot_be_opened
    [of "[''plain.jpg'' \<mapsto> [0xFF, 0xD8, 0xFF, 0xD9]]" "''plain.jpg''" plainLib True]
  by (simp add: plainLib_def)

text \<open>C3 as stated fails for a file that cannot be opened: the error of \<open>os.Open\<close> is
  returned, with a \<open>nil\<close> record.\<close>

theorem Extract_returns_open_error:
  "Extract plainLib False Map.empty ''unreadable.jpg'' = (None, zeroTime, Some OpenError)"
  by (simp add: Extract_def extractWithGoexif_def)

subsection \<open>Placeholder images\<close>

lemma update4:
  "length B \<ge> 4 \<Longrightarrow> (A @ B)[length A := r, length A + 1 := g, length A + 2 := b, length A + 3 := a]
     = A @ [r, g, b, a] @ drop 4 B"
  apply (cases B; simp)
  subgoal for b0 B1 apply (cases B1; simp)
    subgoal for b1 B2 apply (cases B2; simp)
      subgoal for b2 B3 apply (cases B3; simp)
        by (simp add: list_update_append)
      done
    done
  done



lemma length_colorBytes: "length (colorBytes c) = 4"
  by (simp add: colorBytes_def split: prod.splits)

lemma length_pixBytes: "length (pixBytes colorAt W k) = 4 * k"
  by (induction k) (simp_all add: pixBytes_def length_colorBytes)

lemma pixBytes_Suc:
  "pixBytes colorAt W (Suc k) = pixBytes colorAt W k @ colorBytes (colorAt (int (k mod W)) (int (k div W)))"
  by (simp add: pixBytes_def)

lemma set_partlyFilled:
  assumes "n < W" "Y < H"
  shows "setRGBA (partlyFilled colorAt W H (Y * W + n)) (int n) (int Y) (colorAt (int n) (int Y))
     = partlyFilled colorAt W H (Y * W + n + 1)"
proof -
  let ?k = "Y * W + n"
  obtain r g b a where c: "colorAt (int n) (int Y) = (r, g, b, a)"
    by (cases "colorAt (int n) (int Y)") auto
  have room: "?k < W * H"
  proof -
    have "?k < Y * W + W" using assms by simp
    also have "\<dots> = Suc Y * W" by simp
    also have "\<dots> \<le> H * W" using assms by (intro mult_le_mono1) simp
    finally show ?thesis by (simp add: mult.commute)
  qed
  have inside: "pointIn (int n) (int Y) (partlyFilled colorAt W H ?k)"
    using assms by (simp add: pointIn_def partlyFilled_def)
  have off: "PixOffset (partlyFilled colorAt W H ?k) (int n) (int Y) = length (pixBytes colorAt W ?k)"
  proof -
    have "int Y * (4 * int W) + int n * 4 = int (4 * ?k)" by simp
    then show ?thesis
      by (simp add: PixOffset_def partlyFilled_def length_pixBytes del: of_nat_mult of_nat_add)
  qed
  have len: "4 \<le> length (replicate (4 * (W * H - ?k)) (0::byte))"
    using room by simp
  have drop4: "4 * (W * H - ?k) - 4 = 4 * (W * H - Suc ?k)"
    using room by simp
  have pos: "?k mod W = n" "?k div W = Y"
    using assms by simp_all
  have "pixBytes colorAt W (Suc ?k) = pixBytes colorAt W ?k @ colorBytes (colorAt (int n) (int Y))"
    unfolding pixBytes_Suc pos ..
  then have next_bytes: "pixBytes colorAt W (?k + 1) = pixBytes colorAt W ?k @ [r, g, b, a]"
    by (simp add: c colorBytes_def)
  have "(Pix (partlyFilled colorAt W H ?k))
      [length (pixBytes colorAt W ?k) := r, length (pixBytes colorAt W ?k) + 1 := g,
       length (pixBytes colorAt W ?k) + 2 := b, length (pixBytes colorAt W ?k) + 3 := a]
      = pixBytes colorAt W (?k + 1) @ replicate (4 * (W * H - (?k + 1))) 0"
    unfolding partlyFilled_def using update4 [OF len, of "pixBytes colorAt W ?k" r g b a]
    using next_bytes by (simp add: drop4)
  then show ?thesis
    using inside by (simp add: setRGBA_def off c Let_def) (simp add: partlyFilled_def)
qed

lemma upto_snoc_nat: "[0..int (Suc n) - 1] = [0..int n - 1] @ [int n]"
  using upto_rec2 [of 0 "int n"] by simp

lemma fill_row:
  assumes "n \<le> W" "Y < H"
  shows "fold (\<lambda>x img. setRGBA img x (int Y) (colorAt x (int Y))) [0..int n - 1]
           (partlyFilled colorAt W H (Y * W))
      = partlyFilled colorAt W H (Y * W + n)"
  using assms(1)
proof (induction n)
  case 0
  then show ?case by simp
next
  case (Suc n)
  then have "n < W" by simp
  from Suc have IH: "fold (\<lambda>x img. setRGBA img x (int Y) (colorAt x (int Y))) [0..int n - 1]
      (partlyFilled colorAt W H (Y * W)) = partlyFilled colorAt W H (Y * W + n)" by simp
  show ?case
    unfolding upto_snoc_nat
    using set_partlyFilled [OF \<open>n < W\<close> assms(2), of colorAt] by (simp add: IH)
qed

lemma fill_rows:
  assumes "m \<le> H"
  shows "fold (\<lambda>y img. fold (\<lambda>x img. setRGBA img x y (colorAt x y)) [0..int W - 1] img)
           [0..int m - 1] (partlyFilled colorAt W H 0)
         = partlyFilled colorAt W H (m * W)"
  using assms
proof (induction m)
  case 0
  then show ?case by simp
next
  case (Suc m)
  then have "m < H" by simp
  from Suc have IH: "fold (\<lambda>y img. fold (\<lambda>x img. setRGBA img x y (colorAt x y)) [0..int W - 1] img)
      [0..int m - 1] (partlyFilled colorAt W H 0) = partlyFilled colorAt W H (m * W)" by simp
  show ?case
    unfolding upto_snoc_nat
    using fill_row [OF order_refl \<open>m < H\<close>, where W = W and colorAt = colorAt]
    by (simp add: IH add.commute)
qed

lemma fillLoop_pixels:
  "fillLoop (NewRGBA (imageRect 0 0 (int W) (int H))) (int W) (int H) colorAt =
     \<lparr>Pix = pixBytes colorAt W (W * H), Stride = 4 * int W,
      RectMin = (0, 0), RectMax = (int W, int H)\<rparr>"
proof -
  have new: "NewRGBA (imageRect 0 0 (int W) (int H)) = partlyFilled colorAt W H 0"
    by (simp add: NewRGBA_def imageRect_def partlyFilled_def pixBytes_def Let_def nat_mult_distrib)
  show ?thesis
    unfolding fillLoop_def new
    using fill_rows [where m = H and H = H and W = W and colorAt = colorAt]
    by (simp add: partlyFilled_def mult.commute)
qed

lemma pixBytes_gray: "pixBytes (\<lambda>x y. gray) W k = concat (replicate k [128, 128, 128, 255])"
  by (simp add: pixBytes_def colorBytes_def gray_def map_replicate_const)

lemma pixBytes_grid:
  "pixBytes (\<lambda>x y. let idx = nat ((y * 4 + x) * 3) in (data ! idx, data ! (idx + 1), data ! (idx + 2), 255)) 4 k
   = concat (map (\<lambda>j. [data ! (3 * j), data ! (3 * j + 1), data ! (3 * j + 2), 255]) [0..<k])"
proof -
  have idx: "nat (12 * int (j div 4) + int (j mod 4) * 3) = 3 * j" for j :: nat
  proof -
    have "12 * int (j div 4) + int (j mod 4) * 3 = int (3 * j)"
      by arith
    then show ?thesis by (simp del: of_nat_mult of_nat_add)
  qed
  show ?thesis
    unfolding pixBytes_def by (simp add: idx colorBytes_def Let_def del: upt_Suc)
qed


text \<open>
  C9. For an encoding that is not valid base64, or that decodes to fewer than 48 bytes,
  \<open>GeneratePlaceholder\<close> returns no error and an image of the requested width and
  height (both at least zero) whose every pixel is (128, 128, 128, 255). For an encoding
  that decodes to at least 48 bytes it returns, with no error, the linear resize of the
  4 by 4 image whose pixel number \<open>k\<close> in row order has the bytes \<open>3k\<close>, \<open>3k+1\<close>
  and \<open>3k+2\<close> as red, green and blue, and alpha 255.
\<close>

theorem GeneratePlaceholder_gray_fallback:
  assumes "0 \<le> width" "0 \<le> height"
  shows "((base64Decode lib blurhash = None
            \<or> (\<exists>data. base64Decode lib blurhash = Some data \<and> length data < 48)) \<longrightarrow>
          GeneratePlaceholder lib blurhash width height =
            (\<lparr>Pix = concat (replicate (nat width * nat height) [128, 128, 128, 255]),
              Stride = 4 * width, RectMin = (0, 0), RectMax = (width, height)\<rparr>, None))
       \<and> (\<forall>data. base64Decode lib blurhash = Some data \<and> 48 \<le> length data \<longrightarrow>
          GeneratePlaceholder lib blurhash width height =
            (resizeLinear lib
               \<lparr>Pix = concat (map (\<lambda>k. [data ! (3 * k), data ! (3 * k + 1), data ! (3 * k + 2), 255])
                               [0..<16]),
                Stride = 16, RectMin = (0, 0), RectMax = (4, 4)\<rparr> width height, None))"
proof -
  obtain W H where W: "width = int W" and H: "height = int H"
    using assms by (metis nonneg_int_cases)
  have flat: "fillLoop (NewRGBA (imageRect 0 0 width height)) width height (\<lambda>x y. gray) =
      \<lparr>Pix = concat (replicate (nat width * nat height) [128, 128, 128, 255]),
       Stride = 4 * width, RectMin = (0, 0), RectMax = (width, height)\<rparr>"
    unfolding W H fillLoop_pixels pixBytes_gray by simp
  have grid: "fillLoop (NewRGBA (imageRect 0 0 4 4)) 4 4
        (\<lambda>x y. let idx = nat ((y * 4 + x) * 3)
               in (data ! idx, data ! (idx + 1), data ! (idx + 2), 255)) =
      \<lparr>Pix = concat (map (\<lambda>k. [data ! (3 * k), data ! (3 * k + 1), data ! (3 * k + 2), 255])
                      [0..<16]),
       Stride = 16, RectMin = (0, 0), RectMax = (4, 4)\<rparr>" for data :: "byte list"
    using fillLoop_pixels [of 4 4
        "\<lambda>x y. let idx = nat ((y * 4 + x) * 3)
               in (data ! idx, data ! (idx + 1), data ! (idx + 2), 255)"]
    unfolding pixBytes_grid by simp
  have bad: "GeneratePlaceholder lib blurhash width height =
      (fillLoop (NewRGBA (imageRect 0 0 width height)) width height (\<lambda>x y. gray), None)"
    if "base64Decode lib blurhash = None
        \<or> (\<exists>data. base64Decode lib blurhash = Some data \<and> length data < 48)"
    using that by (auto simp: GeneratePlaceholder_def)
  have good: "GeneratePlaceholder lib blurhash width height =
      (resizeLinear lib
         (fillLoop (NewRGBA (imageRect 0 0 4 4)) 4 4
            (\<lambda>x y. let idx = nat ((y * 4 + x) * 3)
                   in (data ! idx, data ! (idx + 1), data ! (idx + 2), 255))) width height, None)"
    if "base64Decode lib blurhash = Some data" "48 \<le> length data" for data
    using that by (simp add: GeneratePlaceholder_def)
  show ?thesis
    using bad [unfolded flat] good [unfolded grid] by blast
qed

theorem GeneratePlaceholder_gray_fallback_witness:
  "GeneratePlaceholder plainLib ''not base64!'' 2 1 =
     (\<lparr>Pix = [128, 128, 128, 255, 128, 128, 128, 255], Stride = 8,
       RectMin = (0, 0), RectMax = (2, 1)\<rparr>, None)
   \<and> GeneratePlaceholder (plainLib\<lparr>base64Decode := (\<lambda>s. Some (replicate 48 7))\<rparr>) ''BwcH'' 2 1 =
     (\<lparr>Pix = concat (map (\<lambda>k. [replicate 48 7 ! (3 * k), replicate 48 7 ! (3 * k + 1),
                               replicate 48 7 ! (3 * k + 2), 255]) [0..<16]),
       Stride = 16, RectMin = (0, 0), RectMax = (4, 4)\<rparr>, None)"
proof -
  have d: "(0::int) \<le> 2" "(0::int) \<le> 1"
    by simp_all
  have two: "concat (replicate (nat 2 * nat 1) [128, 128, 128, 255 :: byte])
      = [128, 128, 128, 255, 128, 128, 128, 255]"
    by (simp add: numeral_2_eq_2)
  show ?thesis
    using GeneratePlaceholder_gray_fallback [OF d, of plainLib "''not base64!''"]
      GeneratePlaceholder_gray_fallback
        [OF d, of "plainLib\<lparr>base64Decode := (\<lambda>s. Some (replicate 48 7))\<rparr>" "''BwcH''"]
    unfolding two by (simp add: plainLib_def)
qed

subsection \<open>URL slugs\<close>

lemma mapRunes_allowed: "c \<in> set (mapRunes s) \<Longrightarrow> allowedRune c"
  by (induction s) (auto simp: allowedRune_def split: if_splits)

lemma mapRunes_filter:
  "filter (\<lambda>c. c \<noteq> CHR ''-'') (mapRunes s) = filter (\<lambda>c. allowedRune c \<and> c \<noteq> CHR ''-'') s"
  by (induction s) (auto simp: allowedRune_def runeBetween_def)

lemma collapse_set: "set (collapseHyphens s) \<subseteq> set s"
  by (induction s rule: collapseHyphens.induct) auto

lemma collapse_filter:
  "filter (\<lambda>c. c \<noteq> CHR ''-'') (collapseHyphens s) = filter (\<lambda>c. c \<noteq> CHR ''-'') s"
  by (induction s rule: collapseHyphens.induct) auto

lemma collapse_hd: "collapseHyphens (c # cs) = c # tl (collapseHyphens (c # cs))"
  by (induction "c # cs" arbitrary: c cs rule: collapseHyphens.induct) auto

lemma collapse_noDouble: "noDoubleHyphen (collapseHyphens s)"
proof (induction s rule: collapseHyphens.induct)
  case (1 c d cs)
  obtain t where t: "collapseHyphens (d # cs) = d # t"
    using collapse_hd [of d cs] by auto
  with 1 show ?case by auto
qed simp_all

lemma noDouble_dropWhile: "noDoubleHyphen s \<Longrightarrow> noDoubleHyphen (dropWhile P s)"
  by (induction s rule: noDoubleHyphen.induct) auto

lemma noDouble_append1: "noDoubleHyphen (xs @ ys) \<Longrightarrow> noDoubleHyphen xs"
proof (induction xs rule: noDoubleHyphen.induct)
  case (1 c d cs)
  then show ?case by auto
qed auto

lemma trim_prefix:
  "dropWhile (\<lambda>c. c = CHR ''-'') s
     = trimHyphens s @ rev (takeWhile (\<lambda>c. c = CHR ''-'') (rev (dropWhile (\<lambda>c. c = CHR ''-'') s)))"
proof -
  let ?r = "rev (dropWhile (\<lambda>c. c = CHR ''-'') s)"
  have "rev (takeWhile (\<lambda>c. c = CHR ''-'') ?r @ dropWhile (\<lambda>c. c = CHR ''-'') ?r) = rev ?r"
    by (simp only: takeWhile_dropWhile_id)
  then have "rev (dropWhile (\<lambda>c. c = CHR ''-'') ?r) @ rev (takeWhile (\<lambda>c. c = CHR ''-'') ?r) = rev ?r"
    by (simp only: rev_append)
  then show ?thesis
    by (simp only: trimHyphens_def rev_rev_ident)
qed

lemma trim_noDouble: "noDoubleHyphen s \<Longrightarrow> noDoubleHyphen (trimHyphens s)"
proof -
  assume "noDoubleHyphen s"
  then have "noDoubleHyphen (dropWhile (\<lambda>c. c = CHR ''-'') s)"
    by (rule noDouble_dropWhile)
  then show ?thesis
    by (subst (asm) trim_prefix) (rule noDouble_append1)
qed

lemma trim_set: "c \<in> set (trimHyphens s) \<Longrightarrow> c \<in> set s"
proof -
  assume "c \<in> set (trimHyphens s)"
  then have "c \<in> set (dropWhile (\<lambda>c. c = CHR ''-'') s)"
    by (subst trim_prefix) simp
  then show ?thesis
    by (rule set_dropWhileD)
qed

lemma filter_dropWhile_hyphen:
  "filter (\<lambda>c. c \<noteq> CHR ''-'') (dropWhile (\<lambda>c. c = CHR ''-'') s) = filter (\<lambda>c. c \<noteq> CHR ''-'') s"
  by (induction s) auto

lemma filter_takeWhile_hyphen:
  "filter (\<lambda>c. c \<noteq> CHR ''-'') (takeWhile (\<lambda>c. c = CHR ''-'') xs) = []"
  by (induction xs) auto

lemma trim_filter:
  "filter (\<lambda>c. c \<noteq> CHR ''-'') (trimHyphens s) = filter (\<lambda>c. c \<noteq> CHR ''-'') s"
proof -
  let ?t = "takeWhile (\<lambda>c. c = CHR ''-'') (rev (dropWhile (\<lambda>c. c = CHR ''-'') s))"
  have "filter (\<lambda>c. c \<noteq> CHR ''-'') ?t = []"
    by (rule filter_takeWhile_hyphen)
  then have "rev (filter (\<lambda>c. c \<noteq> CHR ''-'') ?t) = []"
    by simp
  then have tail: "filter (\<lambda>c. c \<noteq> CHR ''-'') (rev ?t) = []"
    by (simp only: rev_filter)
  have "filter (\<lambda>c. c \<noteq> CHR ''-'') s = filter (\<lambda>c. c \<noteq> CHR ''-'') (dropWhile (\<lambda>c. c = CHR ''-'') s)"
    by (simp only: filter_dropWhile_hyphen)
  also have "\<dots> = filter (\<lambda>c. c \<noteq> CHR ''-'') (trimHyphens s @ rev ?t)"
    by (subst trim_prefix [symmetric]) (rule refl)
  also have "\<dots> = filter (\<lambda>c. c \<noteq> CHR ''-'') (trimHyphens s)"
    by (simp only: filter_append tail append_Nil2)
  finally show ?thesis by simp
qed

lemma trim_trimmed: "trimmedSegment (trimHyphens s)"
proof (cases "trimHyphens s = []")
  case True
  then show ?thesis by (simp add: trimmedSegment_def)
next
  case False
  let ?a = "dropWhile (\<lambda>c. c = CHR ''-'') s"
  let ?b = "dropWhile (\<lambda>c. c = CHR ''-'') (rev ?a)"
  have t: "trimHyphens s = rev ?b"
    by (simp add: trimHyphens_def)
  have b_ne: "?b \<noteq> []"
    using False t by simp
  have "hd ?b \<noteq> CHR ''-''"
    using b_ne hd_dropWhile [of "\<lambda>c. c = CHR ''-''" "rev ?a"] by simp
  then have last_ok: "last (trimHyphens s) \<noteq> CHR ''-''"
    using b_ne by (simp add: t last_rev)
  have a_ne: "?a \<noteq> []"
  proof
    assume e: "?a = []"
    have "?b = []" unfolding e by simp
    with b_ne show False by blast
  qed
  have "hd ?a \<noteq> CHR ''-''"
    using a_ne hd_dropWhile [of "\<lambda>c. c = CHR ''-''" s] by simp
  moreover have "hd (trimHyphens s @ rev (takeWhile (\<lambda>c. c = CHR ''-'') (rev ?a))) = hd (trimHyphens s)"
    using False by (rule hd_append2)
  then have "hd ?a = hd (trimHyphens s)"
    by (subst trim_prefix)
  ultimately show ?thesis
    using last_ok by (simp add: trimmedSegment_def)
qed

lemma split_nonempty: "splitSlash s \<noteq> []"
  by (induction s) (auto split: list.splits)

lemma join_split: "joinStrings (splitSlash s) ''/'' = s"
proof (induction s)
  case Nil
  then show ?case by simp
next
  case (Cons c cs)
  obtain p ps where ps: "splitSlash cs = p # ps"
    using split_nonempty [of cs] by (cases "splitSlash cs") auto
  show ?case
  proof (cases "c = CHR ''/''")
    case True
    then show ?thesis using Cons ps by simp
  next
    case False
    then show ?thesis using Cons ps by (cases ps) auto
  qed
qed

lemma split_no_slash: "p \<in> set (splitSlash s) \<Longrightarrow> CHR ''/'' \<notin> set p"
proof (induction s arbitrary: p)
  case Nil
  then show ?case by simp
next
  case (Cons c cs)
  obtain q qs where qs: "splitSlash cs = q # qs"
    using split_nonempty [of cs] by (cases "splitSlash cs") auto
  show ?case
    using Cons qs by (auto split: if_splits)
qed

lemma split_join:
  "ps \<noteq> [] \<Longrightarrow> \<forall>p \<in> set ps. CHR ''/'' \<notin> set p \<Longrightarrow> splitSlash (joinStrings ps ''/'') = ps"
proof (induction ps "''/''" rule: joinStrings.induct)
  case 1
  then show ?case by simp
next
  case (2 x)
  have "CHR ''/'' \<notin> set x \<Longrightarrow> splitSlash x = [x]"
    by (induction x) auto
  with 2 show ?case by simp
next
  case (3 x y ys)
  then have IH: "splitSlash (joinStrings (y # ys) ''/'') = y # ys" by simp
  have "CHR ''/'' \<notin> set x \<Longrightarrow> splitSlash (x @ CHR ''/'' # rest) = x # splitSlash rest" for rest
    by (induction x) (auto split: list.splits)
  with 3 IH show ?case by simp
qed

lemma join_filter:
  assumes "\<And>p. filter P (f p) = filter P p"
  shows "filter P (joinStrings (map f ps) sep) = filter P (joinStrings ps sep)"
  by (induction ps sep rule: joinStrings.induct) (simp_all add: assms)

lemma join_set: "c \<in> set (joinStrings ps sep) \<Longrightarrow> c \<in> set sep \<or> (\<exists>p \<in> set ps. c \<in> set p)"
  by (induction ps sep rule: joinStrings.induct) auto

lemma split_set: "p \<in> set (splitSlash s) \<Longrightarrow> c \<in> set p \<Longrightarrow> c \<in> set s"
proof (induction s arbitrary: p)
  case Nil
  then show ?case by simp
next
  case (Cons d cs)
  obtain q qs where qs: "splitSlash cs = q # qs"
    using split_nonempty [of cs] by (cases "splitSlash cs") auto
  show ?case
  proof (cases "d = CHR ''/''")
    case True
    with Cons.prems qs have "p = [] \<or> p \<in> set (splitSlash cs)" by auto
    with Cons show ?thesis by auto
  next
    case False
    with Cons.prems qs have "p = d # q \<or> p \<in> set qs" by auto
    then show ?thesis
    proof
      assume "p = d # q"
      with Cons.prems have "c = d \<or> c \<in> set q" by auto
      moreover have "q \<in> set (splitSlash cs)" using qs by simp
      ultimately show ?thesis using Cons.IH by auto
    next
      assume "p \<in> set qs"
      then have "p \<in> set (splitSlash cs)" using qs by simp
      then show ?thesis using Cons.IH Cons.prems by auto
    qed
  qed
qed



lemma split_head_prefix: "splitSlash s = q # qs \<Longrightarrow> \<exists>rest. s = q @ rest"
proof -
  assume a: "splitSlash s = q # qs"
  have "joinStrings (q # qs) ''/'' = s"
    using join_split [of s] a by simp
  then show ?thesis
    by (cases qs) auto
qed

lemma noDouble_tl: "noDoubleHyphen (c # cs) \<Longrightarrow> noDoubleHyphen cs"
  by (cases cs) auto

lemma split_noDouble: "noDoubleHyphen s \<Longrightarrow> p \<in> set (splitSlash s) \<Longrightarrow> noDoubleHyphen p"
proof (induction s arbitrary: p)
  case Nil
  then show ?case by simp
next
  case (Cons c cs)
  obtain q qs where qs: "splitSlash cs = q # qs"
    using split_nonempty [of cs] by (cases "splitSlash cs") auto
  have tl: "noDoubleHyphen cs"
    using Cons.prems(1) by (rule noDouble_tl)
  show ?case
  proof (cases "c = CHR ''/''")
    case True
    with Cons.prems qs have "p = [] \<or> p \<in> set (splitSlash cs)" by auto
    with Cons.IH tl show ?thesis by auto
  next
    case False
    with Cons.prems qs have "p = c # q \<or> p \<in> set qs" by auto
    then show ?thesis
    proof
      assume p: "p = c # q"
      obtain rest where "cs = q @ rest"
        using split_head_prefix [OF qs] by blast
      then have "c # cs = (c # q) @ rest" by simp
      then have "noDoubleHyphen ((c # q) @ rest)"
        using Cons.prems(1) by simp
      then show ?thesis
        unfolding p by (rule noDouble_append1)
    next
      assume "p \<in> set qs"
      then have "p \<in> set (splitSlash cs)" using qs by simp
      then show ?thesis using Cons.IH tl by blast
    qed
  qed
qed

lemma noDouble_slash:
  "noDoubleHyphen xs \<Longrightarrow> noDoubleHyphen ys \<Longrightarrow> noDoubleHyphen (xs @ CHR ''/'' # ys)"
proof (induction xs)
  case Nil
  then show ?case by (cases ys) auto
next
  case (Cons c cs)
  have "noDoubleHyphen cs"
    using Cons.prems(1) by (rule noDouble_tl)
  then have IH: "noDoubleHyphen (cs @ CHR ''/'' # ys)"
    using Cons.IH Cons.prems(2) by simp
  show ?case
  proof (cases cs)
    case Nil
    with IH show ?thesis by simp
  next
    case (Cons d ds)
    with IH Cons.prems(1) show ?thesis by simp
  qed
qed

lemma join_noDouble:
  "\<forall>p \<in> set ps. noDoubleHyphen p \<Longrightarrow> noDoubleHyphen (joinStrings ps ''/'')"
proof (induction ps "''/''" rule: joinStrings.induct)
  case (3 x y ys)
  then have "noDoubleHyphen x" "noDoubleHyphen (joinStrings (y # ys) ''/'')" by simp_all
  then have "noDoubleHyphen (x @ CHR ''/'' # joinStrings (y # ys) ''/'')"
    by (rule noDouble_slash)
  then show ?case by simp
qed simp_all

lemma join_trimmed:
  "ps \<noteq> [] \<Longrightarrow> \<forall>p \<in> set ps. trimmedSegment p \<Longrightarrow> trimmedSegment (joinStrings ps ''/'')"
proof (induction ps "''/''" rule: joinStrings.induct)
  case 1
  then show ?case by simp
next
  case (2 x)
  then show ?case by simp
next
  case (3 x y ys)
  let ?r = "joinStrings (y # ys) ''/''"
  have x: "trimmedSegment x" and r: "trimmedSegment ?r"
    using 3 by simp_all
  have h: "hd (x @ CHR ''/'' # ?r) \<noteq> CHR ''-''"
    using x by (cases x) (auto simp: trimmedSegment_def)
  have l: "last (x @ CHR ''/'' # ?r) \<noteq> CHR ''-''"
    using r by (cases "?r = []") (auto simp: trimmedSegment_def)
  show ?case
    using h l by (simp add: trimmedSegment_def)
qed

lemma sanitize_parts:
  "splitSlash (sanitizeURLPath lib path)
     = map trimHyphens (splitSlash (trimHyphens (collapseHyphens (mapRunes (toLower lib path)))))"
proof -
  let ?t = "trimHyphens (collapseHyphens (mapRunes (toLower lib path)))"
  have "\<forall>p \<in> set (map trimHyphens (splitSlash ?t)). CHR ''/'' \<notin> set p"
    using split_no_slash trim_set by fastforce
  moreover have "map trimHyphens (splitSlash ?t) \<noteq> []"
    using split_nonempty by simp
  ultimately show ?thesis
    unfolding sanitizeURLPath_def Let_def by (rule split_join [rotated])
qed

lemma sanitize_properties:
  "(\<forall>c \<in> set (sanitizeURLPath lib path). allowedRune c)
   \<and> filter (\<lambda>c. c \<noteq> CHR ''-'') (sanitizeURLPath lib path)
       = filter (\<lambda>c. allowedRune c \<and> c \<noteq> CHR ''-'') (toLower lib path)
   \<and> noDoubleHyphen (sanitizeURLPath lib path)
   \<and> trimmedSegment (sanitizeURLPath lib path)
   \<and> (\<forall>seg \<in> set (splitSlash (sanitizeURLPath lib path)). trimmedSegment seg)"
proof -
  let ?m = "mapRunes (toLower lib path)"
  let ?t = "trimHyphens (collapseHyphens ?m)"
  let ?ps = "map trimHyphens (splitSlash ?t)"
  have san: "sanitizeURLPath lib path = joinStrings ?ps ''/''"
    by (simp add: sanitizeURLPath_def)
  have t_allowed: "allowedRune c" if "c \<in> set ?t" for c
  proof -
    from that have "c \<in> set (collapseHyphens ?m)" by (rule trim_set)
    then have "c \<in> set ?m" using collapse_set by blast
    then show ?thesis by (rule mapRunes_allowed)
  qed
  have p1: "\<forall>c \<in> set (sanitizeURLPath lib path). allowedRune c"
  proof
    fix c assume "c \<in> set (sanitizeURLPath lib path)"
    then have "c \<in> set ''/'' \<or> (\<exists>p \<in> set ?ps. c \<in> set p)"
      unfolding san by (rule join_set)
    then show "allowedRune c"
    proof
      assume "c \<in> set ''/''"
      then show ?thesis by (simp add: allowedRune_def)
    next
      assume "\<exists>p \<in> set ?ps. c \<in> set p"
      then obtain q where q: "q \<in> set (splitSlash ?t)" "c \<in> set (trimHyphens q)" by auto
      then have "c \<in> set q" using trim_set by blast
      then have "c \<in> set ?t" using q(1) split_set by blast
      then show ?thesis by (rule t_allowed)
    qed
  qed
  have "filter (\<lambda>c. c \<noteq> CHR ''-'') (sanitizeURLPath lib path)
      = filter (\<lambda>c. c \<noteq> CHR ''-'') (joinStrings (splitSlash ?t) ''/'')"
    unfolding san by (rule join_filter) (rule trim_filter)
  also have "\<dots> = filter (\<lambda>c. c \<noteq> CHR ''-'') ?t"
    by (simp only: join_split)
  also have "\<dots> = filter (\<lambda>c. c \<noteq> CHR ''-'') ?m"
    by (simp only: trim_filter collapse_filter)
  also have "\<dots> = filter (\<lambda>c. allowedRune c \<and> c \<noteq> CHR ''-'') (toLower lib path)"
    by (rule mapRunes_filter)
  finally have p2: "filter (\<lambda>c. c \<noteq> CHR ''-'') (sanitizeURLPath lib path)
       = filter (\<lambda>c. allowedRune c \<and> c \<noteq> CHR ''-'') (toLower lib path)" .
  have nd_t: "noDoubleHyphen ?t"
    by (rule trim_noDouble) (rule collapse_noDouble)
  have "\<forall>p \<in> set ?ps. noDoubleHyphen p"
    using split_noDouble [OF nd_t] trim_noDouble by auto
  then have p3: "noDoubleHyphen (sanitizeURLPath lib path)"
    unfolding san by (rule join_noDouble)
  have all_trimmed: "\<forall>p \<in> set ?ps. trimmedSegment p"
    using trim_trimmed by auto
  have "?ps \<noteq> []" using split_nonempty by simp
  then have p4: "trimmedSegment (sanitizeURLPath lib path)"
    unfolding san using all_trimmed by (rule join_trimmed)
  have p5: "\<forall>seg \<in> set (splitSlash (sanitizeURLPath lib path)). trimmedSegment seg"
    unfolding sanitize_parts using all_trimmed .
  from p1 p2 p3 p4 p5 show ?thesis by blast
qed

lemma Ext_img_0001: "Ext ''trips/2024-paris/img_0001.jpg'' = ''.jpg''"
  by code_simp

lemma TrimSuffix_img_0001:
  "TrimSuffix ''trips/2024-paris/img_0001.jpg'' ''.jpg'' = ''trips/2024-paris/img_0001''"
  by code_simp

lemma formatInt_1: "formatInt 1 = ''1''"
  by code_simp

lemma second_photo_slug:
  assumes "sanitizeURLPath (stdlib svc) p = ''trips/2024-paris/img_0001.jpg''"
    and "urlPathExists w ''trips/2024-paris/img_0001.jpg''"
    and "\<not> urlPathExists w ''trips/2024-paris/img_0001-1.jpg''"
  shows "generateURLPath svc w p = ''trips/2024-paris/img_0001-1.jpg''"
proof -
  have "candidateLoop w ''trips/2024-paris/img_0001'' ''.jpg'' 1
      = Some ''trips/2024-paris/img_0001-1.jpg''"
    using assms(3) by (subst candidateLoop.simps) (simp add: formatInt_1 sprintfCandidate_def)
  then show ?thesis
    using assms(1,2) by (simp add: generateURLPath_def Ext_img_0001 TrimSuffix_img_0001)
qed

lemma sanitize_Trips: 
  "sanitizeURLPath plainLib ''Trips/2024 Paris/IMG_0001.JPG'' = ''trips/2024-paris/img_0001.jpg''"
  by code_simp

lemma allowedRune_alphabet: "allowedRune c = (c \<in> set slugAlphabet)"
proof -
  define n where "n = (of_char c :: nat)"
  have e: "\<And>d. (c = d) = (n = of_char d)"
    unfolding n_def by (simp add: of_char_eq_iff)
  have l: "allowedRune c
      = ((97 \<le> n \<and> n \<le> 122) \<or> (48 \<le> n \<and> n \<le> 57) \<or> n = 47 \<or> n = 46 \<or> n = 45 \<or> n = 95)"
    unfolding allowedRune_def runeBetween_def n_def [symmetric] e by simp
  have r: "(c \<in> set slugAlphabet)
      = (n = 97 \<or> n = 98 \<or> n = 99 \<or> n = 100 \<or> n = 101 \<or> n = 102 \<or> n = 103 \<or> n = 104
         \<or> n = 105 \<or> n = 106 \<or> n = 107 \<or> n = 108 \<or> n = 109 \<or> n = 110 \<or> n = 111
         \<or> n = 112 \<or> n = 113 \<or> n = 114 \<or> n = 115 \<or> n = 116 \<or> n = 117 \<or> n = 118
         \<or> n = 119 \<or> n = 120 \<or> n = 121 \<or> n = 122
         \<or> n = 48 \<or> n = 49 \<or> n = 50 \<or> n = 51 \<or> n = 52 \<or> n = 53 \<or> n = 54 \<or> n = 55
         \<or> n = 56 \<or> n = 57 \<or> n = 47 \<or> n = 46 \<or> n = 45 \<or> n = 95)"
    unfolding slugAlphabet_def set_simps insert_iff empty_iff e by simp
  show ?thesis unfolding l r by arith
qed

lemma keptRune_allowed: "keptRune c = (allowedRune c \<or> c = CHR '' '')"
  by (simp add: keptRune_def allowedRune_alphabet)

lemma splitOn_nonempty: "splitOn P s \<noteq> []"
  by (induction s) (auto split: list.splits)

lemma splitOn_Cons_no:
  assumes "\<not> P c"
  shows "splitOn P (c # cs) = (c # hd (splitOn P cs)) # tl (splitOn P cs)"
  using assms splitOn_nonempty [of P cs] by (cases "splitOn P cs") simp_all

lemma splitSlash_Cons_no:
  assumes "c \<noteq> CHR ''/''"
  shows "splitSlash (c # cs) = (c # hd (splitSlash cs)) # tl (splitSlash cs)"
  using assms split_nonempty [of cs] by (cases "splitSlash cs") simp_all

lemma splitSlash_Cons_slash: "splitSlash (CHR ''/'' # cs) = [] # splitSlash cs"
  by simp

lemma mapRunes_append: "mapRunes (xs @ ys) = mapRunes xs @ mapRunes ys"
  by (induction xs) simp_all

lemma allowed_slash: "allowedRune CHR ''/''"
  by (simp add: allowedRune_def)

lemma allowed_hyphen: "allowedRune CHR ''-''"
  by (simp add: allowedRune_def)

lemma not_allowed_space: "\<not> allowedRune CHR '' ''"
  by (simp add: allowedRune_def runeBetween_def)

lemma mapRunes_split: "splitSlash (mapRunes l) = map mapRunes (splitSlash l)"
proof (induction l)
  case Nil
  then show ?case by simp
next
  case (Cons c l)
  show ?case
  proof (cases "c = CHR ''/''")
    case True
    then show ?thesis using Cons by (simp add: allowed_slash)
  next
    case False
    note ns = False
    have sp: "splitSlash (c # l) = (c # hd (splitSlash l)) # tl (splitSlash l)"
      by (rule splitSlash_Cons_no [OF ns])
    have ih: "splitSlash (mapRunes l) = mapRunes (hd (splitSlash l)) # map mapRunes (tl (splitSlash l))"
      using Cons split_nonempty [of l] by (cases "splitSlash l") simp_all
    show ?thesis
    proof (cases "allowedRune c")
      case True
      have "splitSlash (mapRunes (c # l)) = splitSlash (c # mapRunes l)" using True by simp
      also have "\<dots> = (c # hd (splitSlash (mapRunes l))) # tl (splitSlash (mapRunes l))"
        by (rule splitSlash_Cons_no [OF ns])
      finally show ?thesis unfolding sp ih using True by simp
    next
      case na: False
      show ?thesis
      proof (cases "c = CHR '' ''")
        case True
        have "splitSlash (mapRunes (c # l)) = splitSlash (CHR ''-'' # mapRunes l)"
          using True na by simp
        also have "\<dots> = (CHR ''-'' # hd (splitSlash (mapRunes l))) # tl (splitSlash (mapRunes l))"
          by (rule splitSlash_Cons_no) simp
        finally show ?thesis unfolding sp ih using True na by simp
      next
        case False
        have "splitSlash (mapRunes (c # l)) = splitSlash (mapRunes l)" using False na by simp
        then show ?thesis unfolding sp ih using False na by simp
      qed
    qed
  qed
qed

lemma collapse_Cons_no:
  assumes "c \<noteq> CHR ''-''"
  shows "collapseHyphens (c # s) = c # collapseHyphens s"
  using assms by (cases s) simp_all

lemma collapse_Cons_hyphen:
  "collapseHyphens (CHR ''-'' # s) = CHR ''-'' # dropWhile (\<lambda>c. c = CHR ''-'') (collapseHyphens s)"
proof (induction s)
  case Nil
  then show ?case by simp
next
  case (Cons d s)
  show ?case
  proof (cases "d = CHR ''-''")
    case True
    then show ?thesis using Cons by simp
  next
    case False
    then show ?thesis by (simp add: collapse_Cons_no)
  qed
qed

lemma split_dropWhile:
  "splitSlash (dropWhile (\<lambda>c. c = CHR ''-'') y)
     = dropWhile (\<lambda>c. c = CHR ''-'') (hd (splitSlash y)) # tl (splitSlash y)"
proof (induction y)
  case Nil
  then show ?case by simp
next
  case (Cons c y)
  show ?case
  proof (cases "c = CHR ''-''")
    case True
    then show ?thesis using Cons by (simp add: splitSlash_Cons_no del: splitSlash.simps)
  next
    case False
    show ?thesis
    proof (cases "c = CHR ''/''")
      case True
      then show ?thesis by simp
    next
      case ns: False
      show ?thesis using False by (simp add: splitSlash_Cons_no [OF ns] del: splitSlash.simps)
    qed
  qed
qed

lemma collapse_split: "splitSlash (collapseHyphens t) = map collapseHyphens (splitSlash t)"
proof (induction t)
  case Nil
  then show ?case by simp
next
  case (Cons c t)
  have ih: "splitSlash (collapseHyphens t)
              = collapseHyphens (hd (splitSlash t)) # map collapseHyphens (tl (splitSlash t))"
    using Cons split_nonempty [of t] by (cases "splitSlash t") simp_all
  show ?case
  proof (cases "c = CHR ''/''")
    case True
    then show ?thesis using Cons by (simp add: collapse_Cons_no)
  next
    case ns: False
    have sp: "splitSlash (c # t) = (c # hd (splitSlash t)) # tl (splitSlash t)"
      by (rule splitSlash_Cons_no [OF ns])
    show ?thesis
    proof (cases "c = CHR ''-''")
      case False
      have "splitSlash (collapseHyphens (c # t)) = splitSlash (c # collapseHyphens t)"
        by (simp only: collapse_Cons_no [OF False])
      also have "\<dots> = (c # hd (splitSlash (collapseHyphens t))) # tl (splitSlash (collapseHyphens t))"
        by (rule splitSlash_Cons_no [OF ns])
      finally show ?thesis unfolding sp ih by (simp add: collapse_Cons_no [OF False])
    next
      case True
      let ?h = "\<lambda>c. c = CHR ''-''"
      have "splitSlash (collapseHyphens (c # t))
              = splitSlash (CHR ''-'' # dropWhile ?h (collapseHyphens t))"
        unfolding True by (simp only: collapse_Cons_hyphen)
      also have "\<dots> = (CHR ''-'' # hd (splitSlash (dropWhile ?h (collapseHyphens t))))
                        # tl (splitSlash (dropWhile ?h (collapseHyphens t)))"
        by (rule splitSlash_Cons_no) simp
      also have "\<dots> = (CHR ''-'' # dropWhile ?h (collapseHyphens (hd (splitSlash t))))
                        # map collapseHyphens (tl (splitSlash t))"
        unfolding split_dropWhile ih by simp
      also have "\<dots> = collapseHyphens (CHR ''-'' # hd (splitSlash t))
                        # map collapseHyphens (tl (splitSlash t))"
        by (simp only: collapse_Cons_hyphen)
      finally have "splitSlash (collapseHyphens (c # t))
              = collapseHyphens (CHR ''-'' # hd (splitSlash t))
                        # map collapseHyphens (tl (splitSlash t))" .
      moreover have "map collapseHyphens (splitSlash (c # t))
              = collapseHyphens (CHR ''-'' # hd (splitSlash t))
                        # map collapseHyphens (tl (splitSlash t))"
        unfolding sp by (simp add: True)
      ultimately show ?thesis by simp
    qed
  qed
qed


lemma trim_as_right: "trimHyphens s = trimRight (dropWhile (\<lambda>c. c = CHR ''-'') s)"
  by (simp add: trimHyphens_def trimRight_def)

lemma trimRight_Cons_no:
  assumes "c \<noteq> CHR ''-''"
  shows "trimRight (c # s) = c # trimRight s"
  using assms by (simp add: trimRight_def dropWhile_append)

lemma trimRight_Cons_hyphen:
  "trimRight (CHR ''-'' # s) = (if trimRight s = [] then [] else CHR ''-'' # trimRight s)"
  by (simp add: trimRight_def dropWhile_append dropWhile_eq_Nil_conv)

lemma trimRight_snoc: "trimRight (s @ ''-'') = trimRight s"
  by (simp add: trimRight_def)

lemma trim_Cons_hyphen: "trimHyphens (CHR ''-'' # s) = trimHyphens s"
  by (simp add: trim_as_right)

lemma trim_Cons_no:
  assumes "c \<noteq> CHR ''-''"
  shows "trimHyphens (c # s) = c # trimRight s"
  using assms by (simp add: trim_as_right trimRight_Cons_no)

lemma trim_snoc: "trimHyphens (s @ ''-'') = trimHyphens s"
proof (cases "\<forall>c \<in> set s. c = CHR ''-''")
  case True
  then have a: "dropWhile (\<lambda>c. c = CHR ''-'') (s @ ''-'') = []"
    and b: "dropWhile (\<lambda>c. c = CHR ''-'') s = []"
    by (simp_all add: dropWhile_eq_Nil_conv)
  show ?thesis unfolding trim_as_right a b ..
next
  case False
  then have "dropWhile (\<lambda>c. c = CHR ''-'') (s @ ''-'')
               = dropWhile (\<lambda>c. c = CHR ''-'') s @ ''-''"
    by (simp add: dropWhile_append)
  then show ?thesis by (simp add: trim_as_right trimRight_snoc)
qed

lemma split_snoc:
  assumes "c \<noteq> CHR ''/''"
  shows "splitSlash (y @ [c]) = butlast (splitSlash y) @ [last (splitSlash y) @ [c]]"
proof (induction y)
  case Nil
  then show ?case using assms by simp
next
  case (Cons d y)
  have ne: "splitSlash y \<noteq> []" by (rule split_nonempty)
  have ne': "splitSlash (y @ [c]) \<noteq> []" by (rule split_nonempty)
  show ?case
  proof (cases "d = CHR ''/''")
    case True
    then show ?thesis using Cons ne by simp
  next
    case False
    have l: "splitSlash ((d # y) @ [c])
               = (d # hd (splitSlash (y @ [c]))) # tl (splitSlash (y @ [c]))"
      using splitSlash_Cons_no [OF False, of "y @ [c]"] by simp
    have r: "splitSlash (d # y) = (d # hd (splitSlash y)) # tl (splitSlash y)"
      by (rule splitSlash_Cons_no [OF False])
    show ?thesis
    proof (cases "tl (splitSlash y) = []")
      case True
      then obtain p where one: "splitSlash y = [p]" using ne by (cases "splitSlash y") simp_all
      have "splitSlash (y @ [c]) = [p @ [c]]"
        unfolding Cons one by simp
      then show ?thesis unfolding l r one by simp
    next
      case False
      then obtain p q qs where pq: "splitSlash y = p # q # qs"
        using ne by (cases "splitSlash y"; cases "tl (splitSlash y)") simp_all
      have "splitSlash (y @ [c]) = p # butlast (q # qs) @ [last (q # qs) @ [c]]"
        unfolding Cons pq by simp
      then show ?thesis unfolding l r pq by simp
    qed
  qed
qed

lemma trim_split_front:
  "map trimHyphens (splitSlash (CHR ''-'' # y)) = map trimHyphens (splitSlash y)"
proof -
  have "splitSlash (CHR ''-'' # y) = (CHR ''-'' # hd (splitSlash y)) # tl (splitSlash y)"
    by (rule splitSlash_Cons_no) simp
  then show ?thesis
    using split_nonempty [of y] by (cases "splitSlash y") (simp_all add: trim_Cons_hyphen)
qed

lemma trim_split_back:
  "map trimHyphens (splitSlash (y @ ''-'')) = map trimHyphens (splitSlash y)"
proof -
  have ne: "splitSlash y \<noteq> []" by (rule split_nonempty)
  have "splitSlash (y @ ''-'') = butlast (splitSlash y) @ [last (splitSlash y) @ ''-'']"
    by (rule split_snoc) simp
  then have "map trimHyphens (splitSlash (y @ ''-''))
               = map trimHyphens (butlast (splitSlash y)) @ [trimHyphens (last (splitSlash y))]"
    by (simp add: trim_snoc)
  also have "\<dots> = map trimHyphens (butlast (splitSlash y) @ [last (splitSlash y)])"
    by simp
  also have "butlast (splitSlash y) @ [last (splitSlash y)] = splitSlash y"
    using ne by simp
  finally show ?thesis .
qed

lemma trim_split_hyphens:
  assumes "\<forall>c \<in> set h1. c = CHR ''-''" "\<forall>c \<in> set h2. c = CHR ''-''"
  shows "map trimHyphens (splitSlash (h1 @ y @ h2)) = map trimHyphens (splitSlash y)"
proof -
  have tail_ok: "map trimHyphens (splitSlash (y @ h2)) = map trimHyphens (splitSlash y)"
    using assms(2)
  proof (induction h2 arbitrary: y)
    case Nil
    then show ?case by simp
  next
    case (Cons c h2)
    then have c: "c = CHR ''-''" by simp
    have "map trimHyphens (splitSlash ((y @ ''-'') @ h2)) = map trimHyphens (splitSlash (y @ ''-''))"
      using Cons.prems by (intro Cons.IH) simp
    then show ?case using trim_split_back [of y] c by simp
  qed
  have "map trimHyphens (splitSlash (h1 @ (y @ h2))) = map trimHyphens (splitSlash (y @ h2))"
    using assms(1)
  proof (induction h1)
    case Nil
    then show ?case by simp
  next
    case (Cons c h1)
    then have c: "c = CHR ''-''" by simp
    have "map trimHyphens (splitSlash (h1 @ y @ h2)) = map trimHyphens (splitSlash (y @ h2))"
      using Cons.prems by (intro Cons.IH) simp
    then show ?case using trim_split_front [of "h1 @ y @ h2"] c by simp
  qed
  then show ?thesis using tail_ok by simp
qed

lemma trim_decompose:
  "\<exists>h1 h2. (\<forall>c \<in> set h1. c = CHR ''-'') \<and> (\<forall>c \<in> set h2. c = CHR ''-'')
     \<and> t = h1 @ trimHyphens t @ h2"
proof (intro exI conjI)
  let ?h = "\<lambda>c. c = CHR ''-''"
  show "\<forall>c \<in> set (takeWhile ?h t). c = CHR ''-''" by (auto dest: set_takeWhileD)
  show "\<forall>c \<in> set (rev (takeWhile ?h (rev (dropWhile ?h t)))). c = CHR ''-''"
    by (auto dest: set_takeWhileD)
  have "takeWhile ?h t @ trimHyphens t @ rev (takeWhile ?h (rev (dropWhile ?h t)))
          = takeWhile ?h t @ dropWhile ?h t"
    by (simp only: trim_prefix [symmetric])
  then show "t = takeWhile ?h t @ trimHyphens t @ rev (takeWhile ?h (rev (dropWhile ?h t)))"
    by simp
qed

lemma trim_split: "map trimHyphens (splitSlash (trimHyphens t)) = map trimHyphens (splitSlash t)"
proof -
  from trim_decompose [of t] obtain h1 h2 where
    all: "(\<forall>c \<in> set h1. c = CHR ''-'') \<and> (\<forall>c \<in> set h2. c = CHR ''-'')
       \<and> t = h1 @ trimHyphens t @ h2" by (elim exE)
  have h: "\<forall>c \<in> set h1. c = CHR ''-''" "\<forall>c \<in> set h2. c = CHR ''-''"
    using all by (rule conjunct1, rule conjunct2 [THEN conjunct1])
  have t: "t = h1 @ trimHyphens t @ h2"
    using all by (rule conjunct2 [THEN conjunct2])
  have a: "map trimHyphens (splitSlash (h1 @ trimHyphens t @ h2))
          = map trimHyphens (splitSlash (trimHyphens t))"
    by (rule trim_split_hyphens [OF h])
  have b: "map trimHyphens (splitSlash t)
          = map trimHyphens (splitSlash (h1 @ trimHyphens t @ h2))"
    using t by (rule arg_cong [where f = "\<lambda>x. map trimHyphens (splitSlash x)"])
  show ?thesis unfolding b a ..
qed


lemma splitOn_mapRunes:
  "splitOn (\<lambda>c. c = CHR ''-'') (mapRunes s) = splitOn hyphenLike (filter keptRune s)"
proof (induction s)
  case Nil
  then show ?case by simp
next
  case (Cons c s)
  show ?case
  proof (cases "allowedRune c")
    case True
    then have ns: "c \<noteq> CHR '' ''" using not_allowed_space by auto
    show ?thesis using True ns Cons by (simp add: keptRune_allowed hyphenLike_def)
  next
    case False
    then have nh: "c \<noteq> CHR ''-''" using allowed_hyphen by auto
    show ?thesis using False nh Cons by (simp add: keptRune_allowed hyphenLike_def)
  qed
qed

lemma join_Cons:
  "joinStrings (w # ws) sep = w @ (if ws = [] then [] else sep @ joinStrings ws sep)"
  by (cases ws) simp_all

lemma join_words_empty:
  assumes "\<forall>w \<in> set ws. w \<noteq> []"
  shows "(joinStrings ws sep = []) = (ws = [])"
  using assms by (cases ws) (simp_all add: join_Cons)

lemma segment_words:
  "trimHyphens (collapseHyphens m)
     = joinStrings (filter (\<lambda>w. w \<noteq> []) (splitOn (\<lambda>c. c = CHR ''-'') m)) ''-''
   \<and> trimRight (collapseHyphens m)
     = hd (splitOn (\<lambda>c. c = CHR ''-'') m)
       @ (if filter (\<lambda>w. w \<noteq> []) (tl (splitOn (\<lambda>c. c = CHR ''-'') m)) = [] then []
          else CHR ''-'' # joinStrings (filter (\<lambda>w. w \<noteq> []) (tl (splitOn (\<lambda>c. c = CHR ''-'') m))) ''-'')"
proof (induction m)
  case Nil
  show ?case by (simp add: trimHyphens_def trimRight_def)
next
  case (Cons c m)
  let ?h = "\<lambda>c. c = CHR ''-''"
  let ?W = "\<lambda>ws. filter (\<lambda>w. w \<noteq> []) ws"
  note ihG = Cons.IH [THEN conjunct1] and ihH = Cons.IH [THEN conjunct2]
  show ?case
  proof (cases "c = CHR ''-''")
    case True
    have sp: "splitOn ?h (c # m) = [] # splitOn ?h m" using True by simp
    have G: "trimHyphens (collapseHyphens (c # m)) = trimHyphens (collapseHyphens m)"
      unfolding True collapse_Cons_hyphen trim_Cons_hyphen
      by (simp add: trim_as_right)
    have X: "trimRight (dropWhile ?h (collapseHyphens m)) = trimHyphens (collapseHyphens m)"
      by (simp add: trim_as_right)
    have H: "trimRight (collapseHyphens (c # m))
               = (if trimHyphens (collapseHyphens m) = [] then []
                  else CHR ''-'' # trimHyphens (collapseHyphens m))"
      unfolding True collapse_Cons_hyphen trimRight_Cons_hyphen X ..
    have e: "(trimHyphens (collapseHyphens m) = []) = (?W (splitOn ?h m) = [])"
      unfolding ihG by (rule join_words_empty) simp
    show ?thesis
      unfolding G H e sp using ihG by simp
  next
    case False
    have sp: "splitOn ?h (c # m) = (c # hd (splitOn ?h m)) # tl (splitOn ?h m)"
      using False by (intro splitOn_Cons_no) simp
    have G: "trimHyphens (collapseHyphens (c # m)) = c # trimRight (collapseHyphens m)"
      by (simp only: collapse_Cons_no [OF False] trim_Cons_no [OF False])
    have H: "trimRight (collapseHyphens (c # m)) = c # trimRight (collapseHyphens m)"
      by (simp only: collapse_Cons_no [OF False] trimRight_Cons_no [OF False])
    show ?thesis
      unfolding G H sp ihH by (simp add: join_Cons)
  qed
qed

lemma segment_slug: "trimHyphens (collapseHyphens (mapRunes seg)) = slugSegment seg"
  unfolding slugSegment_def slugWords_def splitOn_mapRunes [symmetric]
  by (rule segment_words [THEN conjunct1])

lemma sanitize_spec: "sanitizeURLPath lib path = specSlug (toLower lib path)"
proof -
  let ?l = "toLower lib path"
  have "map trimHyphens (splitSlash (trimHyphens (collapseHyphens (mapRunes ?l))))
          = map trimHyphens (splitSlash (collapseHyphens (mapRunes ?l)))"
    by (rule trim_split)
  also have "\<dots> = map trimHyphens (map collapseHyphens (map mapRunes (splitSlash ?l)))"
    by (simp only: collapse_split mapRunes_split)
  also have "\<dots> = map slugSegment (splitSlash ?l)"
    by (simp add: segment_slug)
  finally show ?thesis
    by (simp add: sanitizeURLPath_def specSlug_def)
qed

lemma sanitize_deletes:
  assumes "toLower lib p = xs @ c # ys" "toLower lib q = xs @ ys"
      and "\<not> allowedRune c" "c \<noteq> CHR '' ''"
  shows "sanitizeURLPath lib p = sanitizeURLPath lib q"
proof -
  have "mapRunes (toLower lib p) = mapRunes (toLower lib q)"
    unfolding assms(1,2) mapRunes_append using assms(3,4) by simp
  then show ?thesis by (simp add: sanitizeURLPath_def)
qed

lemma sanitize_space:
  assumes "toLower lib p = xs @ CHR '' '' # ys" "toLower lib q = xs @ CHR ''-'' # ys"
  shows "sanitizeURLPath lib p = sanitizeURLPath lib q"
proof -
  have "mapRunes (toLower lib p) = mapRunes (toLower lib q)"
    unfolding assms(1,2) mapRunes_append by (simp add: allowed_hyphen not_allowed_space)
  then show ?thesis by (simp add: sanitizeURLPath_def)
qed

text \<open>
  C4 (as the code has it). The slug of a path is made from the lower-cased path
  (\<open>strings.ToLower\<close>) by keeping the characters \<open>a-z 0-9 / . - _\<close>, turning every
  space into a hyphen and deleting every other character, then replacing every run of
  hyphens by one hyphen and stripping the hyphens at both ends of the whole string and
  of every segment between path separators. So the slug has only allowed characters, its
  characters other than hyphens are exactly the allowed characters other than hyphens of
  the lower-cased input, in their order (path separators and dots among them), it has no
  two hyphens in a row, and neither it nor any of its segments starts or ends with a
  hyphen. A character that is neither allowed nor a space is deleted: the slug is that of
  the path without it. A space is turned into a hyphen: the slug is that of the path
  with a hyphen in its place. Altogether the slug is, segment by segment of the
  lower-cased path, the words of the segment (what hyphens and spaces separate, once
  the other disallowed characters are deleted) joined by single hyphens; and the allowed
  characters are exactly \<open>a-z 0-9 / . - _\<close>. The path
  \<open>Trips/2024 Paris/IMG_0001.JPG\<close> gives \<open>trips/2024-paris/img_0001.jpg\<close>, and a
  photo whose path sanitizes to that slug, when the catalog has it and not yet the one
  with suffix \<open>-1\<close>, gets \<open>trips/2024-paris/img_0001-1.jpg\<close>.
\<close>

theorem sanitizeURLPath_slug:
  "(\<forall>c \<in> set (sanitizeURLPath lib path). allowedRune c)
   \<and> filter (\<lambda>c. c \<noteq> CHR ''-'') (sanitizeURLPath lib path)
       = filter (\<lambda>c. allowedRune c \<and> c \<noteq> CHR ''-'') (toLower lib path)
   \<and> noDoubleHyphen (sanitizeURLPath lib path)
   \<and> trimmedSegment (sanitizeURLPath lib path)
   \<and> (\<forall>seg \<in> set (splitSlash (sanitizeURLPath lib path)). trimmedSegment seg)
   \<and> sanitizeURLPath plainLib ''Trips/2024 Paris/IMG_0001.JPG'' = ''trips/2024-paris/img_0001.jpg''
   \<and> (sanitizeURLPath (stdlib svc) p = ''trips/2024-paris/img_0001.jpg''
        \<and> urlPathExists w ''trips/2024-paris/img_0001.jpg''
        \<and> \<not> urlPathExists w ''trips/2024-paris/img_0001-1.jpg''
        \<longrightarrow> generateURLPath svc w p = ''trips/2024-paris/img_0001-1.jpg'')
   \<and> (\<forall>xs c ys q. toLower lib path = xs @ c # ys \<and> toLower lib q = xs @ ys
          \<and> \<not> allowedRune c \<and> c \<noteq> CHR '' ''
        \<longrightarrow> sanitizeURLPath lib path = sanitizeURLPath lib q)
   \<and> (\<forall>xs ys q. toLower lib path = xs @ CHR '' '' # ys \<and> toLower lib q = xs @ CHR ''-'' # ys
        \<longrightarrow> sanitizeURLPath lib path = sanitizeURLPath lib q)
   \<and> sanitizeURLPath lib path = specSlug (toLower lib path)
   \<and> allowedRune r = (r \<in> set slugAlphabet)"
proof -
  have del: "\<forall>xs c ys q. toLower lib path = xs @ c # ys \<and> toLower lib q = xs @ ys
          \<and> \<not> allowedRune c \<and> c \<noteq> CHR '' ''
        \<longrightarrow> sanitizeURLPath lib path = sanitizeURLPath lib q"
  proof (intro allI impI)
    fix xs c ys q
    assume a: "toLower lib path = xs @ c # ys \<and> toLower lib q = xs @ ys
          \<and> \<not> allowedRune c \<and> c \<noteq> CHR '' ''"
    show "sanitizeURLPath lib path = sanitizeURLPath lib q"
      by (rule sanitize_deletes [of lib path xs c ys q]) (use a in simp_all)
  qed
  have spc: "\<forall>xs ys q. toLower lib path = xs @ CHR '' '' # ys \<and> toLower lib q = xs @ CHR ''-'' # ys
        \<longrightarrow> sanitizeURLPath lib path = sanitizeURLPath lib q"
  proof (intro allI impI)
    fix xs ys q
    assume a: "toLower lib path = xs @ CHR '' '' # ys \<and> toLower lib q = xs @ CHR ''-'' # ys"
    show "sanitizeURLPath lib path = sanitizeURLPath lib q"
      by (rule sanitize_space [of lib path xs ys q]) (use a in simp_all)
  qed
  have old: "(\<forall>c \<in> set (sanitizeURLPath lib path). allowedRune c)
   \<and> filter (\<lambda>c. c \<noteq> CHR ''-'') (sanitizeURLPath lib path)
       = filter (\<lambda>c. allowedRune c \<and> c \<noteq> CHR ''-'') (toLower lib path)
   \<and> noDoubleHyphen (sanitizeURLPath lib path)
   \<and> trimmedSegment (sanitizeURLPath lib path)
   \<and> (\<forall>seg \<in> set (splitSlash (sanitizeURLPath lib path)). trimmedSegment seg)
   \<and> sanitizeURLPath plainLib ''Trips/2024 Paris/IMG_0001.JPG'' = ''trips/2024-paris/img_0001.jpg''
   \<and> (sanitizeURLPath (stdlib svc) p = ''trips/2024-paris/img_0001.jpg''
        \<and> urlPathExists w ''trips/2024-paris/img_0001.jpg''
        \<and> \<not> urlPathExists w ''trips/2024-paris/img_0001-1.jpg''
        \<longrightarrow> generateURLPath svc w p = ''trips/2024-paris/img_0001-1.jpg'')"
    using sanitize_properties [of lib path] sanitize_Trips second_photo_slug [of svc p w]
    by blast
  have spec: "sanitizeURLPath lib path = specSlug (toLower lib path)"
    by (rule sanitize_spec)
  note o1 = old [THEN conjunct1]
    and o2 = old [THEN conjunct2, THEN conjunct1]
    and o3 = old [THEN conjunct2, THEN conjunct2, THEN conjunct1]
    and o4 = old [THEN conjunct2, THEN conjunct2, THEN conjunct2, THEN conjunct1]
    and o5 = old [THEN conjunct2, THEN conjunct2, THEN conjunct2, THEN conjunct2, THEN conjunct1]
    and o6 = old [THEN conjunct2, THEN conjunct2, THEN conjunct2, THEN conjunct2, THEN conjunct2,
                  THEN conjunct1]
    and o7 = old [THEN conjunct2, THEN conjunct2, THEN conjunct2, THEN conjunct2, THEN conjunct2,
                  THEN conjunct2]
  show ?thesis
    by (intro conjI) (rule o1 o2 o3 o4 o5 o6 o7 del spc spec allowedRune_alphabet)+
qed

theorem sanitizeURLPath_slug_witness:
  "sanitizeURLPath plainLib ''Trips/2024 Paris/IMG_0001.JPG'' = ''trips/2024-paris/img_0001.jpg''
   \<and> noDoubleHyphen (sanitizeURLPath plainLib ''Trips/2024 Paris/IMG_0001.JPG'')
   \<and> generateURLPath plainServices
         (fst (processPhoto plainServices emptyWorld ''Trips/2024 Paris/IMG_0001.JPG'' None))
         ''trips/2024 paris/IMG_0001.jpg''
       = ''trips/2024-paris/img_0001-1.jpg''
   \<and> sanitizeURLPath plainLib ''Trips/2024 Paris/IMG_0001.JPG''
       = sanitizeURLPath plainLib ''trips/2024-Paris/img_0001.jpg''
   \<and> sanitizeURLPath plainLib ''Q&A.jpg'' = sanitizeURLPath plainLib ''QA.jpg''
   \<and> specSlug ''trips/2024 paris/img_0001.jpg'' = ''trips/2024-paris/img_0001.jpg''"
proof -
  let ?w = "fst (processPhoto plainServices emptyWorld ''Trips/2024 Paris/IMG_0001.JPG'' None)"
  have h1: "sanitizeURLPath (stdlib plainServices) ''trips/2024 paris/IMG_0001.jpg''
      = ''trips/2024-paris/img_0001.jpg''"
    by code_simp
  have h2: "urlPathExists ?w ''trips/2024-paris/img_0001.jpg''"
    by code_simp
  have h3: "\<not> urlPathExists ?w ''trips/2024-paris/img_0001-1.jpg''"
    by code_simp
  have l1: "toLower plainLib ''Trips/2024 Paris/IMG_0001.JPG''
      = ''trips/2024'' @ CHR '' '' # ''paris/img_0001.jpg''"
    by code_simp
  have l2: "toLower plainLib ''trips/2024-Paris/img_0001.jpg''
      = ''trips/2024'' @ CHR ''-'' # ''paris/img_0001.jpg''"
    by code_simp
  have l3: "toLower plainLib ''Q&A.jpg'' = ''q'' @ CHR ''&'' # ''a.jpg''"
    by code_simp
  have l4: "toLower plainLib ''QA.jpg'' = ''q'' @ ''a.jpg''"
    by code_simp
  have l5: "\<not> allowedRune CHR ''&'' \<and> CHR ''&'' \<noteq> CHR '' ''"
    by code_simp
  have l6: "toLower plainLib ''Trips/2024 Paris/IMG_0001.JPG'' = ''trips/2024 paris/img_0001.jpg''"
    by code_simp
  note at_trips = sanitizeURLPath_slug
      [of plainLib "''Trips/2024 Paris/IMG_0001.JPG''" plainServices
        "''trips/2024 paris/IMG_0001.jpg''" ?w]
  note at_qa = sanitizeURLPath_slug
      [of plainLib "''Q&A.jpg''" plainServices "''trips/2024 paris/IMG_0001.jpg''" ?w]
  have c1: "sanitizeURLPath plainLib ''Trips/2024 Paris/IMG_0001.JPG''
      = ''trips/2024-paris/img_0001.jpg''"
    using at_trips by blast
  have c2: "noDoubleHyphen (sanitizeURLPath plainLib ''Trips/2024 Paris/IMG_0001.JPG'')"
    using at_trips by blast
  have c3: "generateURLPath plainServices ?w ''trips/2024 paris/IMG_0001.jpg''
      = ''trips/2024-paris/img_0001-1.jpg''"
    using at_trips h1 h2 h3 by blast
  have c4: "sanitizeURLPath plainLib ''Trips/2024 Paris/IMG_0001.JPG''
      = sanitizeURLPath plainLib ''trips/2024-Paris/img_0001.jpg''"
    using at_trips l1 l2 by blast
  have c5: "sanitizeURLPath plainLib ''Q&A.jpg'' = sanitizeURLPath plainLib ''QA.jpg''"
    using at_qa l3 l4 l5 by blast
  have "sanitizeURLPath plainLib ''Trips/2024 Paris/IMG_0001.JPG''
      = specSlug (toLower plainLib ''Trips/2024 Paris/IMG_0001.JPG'')"
    using at_trips by blast
  then have c6: "specSlug ''trips/2024 paris/img_0001.jpg'' = ''trips/2024-paris/img_0001.jpg''"
    unfolding l6 c1 by (rule sym)
  from c1 c2 c3 c4 c5 c6 show ?thesis by (intro conjI)
qed

text \<open>
  C4 as stated fails: a disallowed character other than a space is deleted and not
  turned into a hyphen (\<open>Q&A.jpg\<close> gives \<open>qa.jpg\<close>), and the path
  \<open>Trips/2024-Paris/IMG 0001.JPG\<close> gets a hyphen for its space, so it does not
  sanitize to the slug of \<open>Trips/2024 Paris/IMG_0001.JPG\<close>.
\<close>

theorem sanitizeURLPath_deletes_disallowed:
  "sanitizeURLPath plainLib ''Q&A.jpg'' = ''qa.jpg''
   \<and> sanitizeURLPath plainLib ''Trips/2024-Paris/IMG 0001.JPG'' = ''trips/2024-paris/img-0001.jpg''"
proof -
  have "sanitizeURLPath plainLib ''Q&A.jpg'' = ''qa.jpg''"
    by code_simp
  moreover have "sanitizeURLPath plainLib ''Trips/2024-Paris/IMG 0001.JPG''
      = ''trips/2024-paris/img-0001.jpg''"
    by code_simp
  ultimately show ?thesis by simp
qed

subsection \<open>Slug assignment\<close>


































subsection \<open>Re-scanning\<close>


lemma extends_refl: "extends w w"
  by (simp add: extends_def)

lemma extends_trans: "extends a b \<Longrightarrow> extends b c \<Longrightarrow> extends a c"
  by (auto simp: extends_def)

lemma processPhoto_exists:
  "photoPathExists w p \<Longrightarrow> processPhoto svc w p f = (w, None)"
  by (simp add: processPhoto_def)

lemma processPhoto_cases:
  assumes "processPhoto svc w p f = (w', e)"
  shows "extends w w' \<and> logged w' = logged w \<and> (e = None \<longrightarrow> photoPathExists w' p)"
proof (cases "photoPathExists w p")
  case True
  then show ?thesis using assms by (auto simp: processPhoto_def extends_def)
next
  case ne: False
  show ?thesis
  proof (cases "statFile svc p")
    case None
    then show ?thesis using assms ne by (auto simp: processPhoto_def extends_def)
  next
    case (Some sz)
    let ?w = "w\<lparr>events := events w @ [EvStripGPS p, EvExtract p, EvDimensions p, EvBlurhash p]\<rparr>"
    obtain ej tk where meta: "extractMeta svc p = (ej, tk)"
      by (cases "extractMeta svc p") auto
    obtain wd ht where dims: "imageDimensions svc p = (wd, ht)"
      by (cases "imageDimensions svc p") auto
    let ?row = "\<lparr>photoId = photoSeq ?w, photoFolder = f, photoFilename = Base p,
        photoPath = p, urlPath = Some (generateURLPath svc ?w p), photoWidth = wd,
        photoHeight = ht, sizeBytes = sz, photoBlurhash = generateBlurhash svc p,
        photoExif = ej, photoTakenAt = (if tk = zeroTime then None else Some tk)\<rparr>"
    have nf: "find (\<lambda>r. photoPath r = p) (photos ?w) = None"
      using ne by (auto simp: photoPathExists_def find_None_iff)
    have pp: "processPhoto svc w p f =
        (case insertPhoto ?w ?row of
           (w', Inl err) \<Rightarrow> (w', Some err)
         | (w', Inr photoID) \<Rightarrow>
             (w'\<lparr>events := events w' @ [EvThumbnail photoID p ''small'',
                  EvThumbnail photoID p ''medium'', EvThumbnail photoID p ''large'']\<rparr>, None))"
      using ne Some by (simp add: processPhoto_def meta dims Let_def)
    show ?thesis
    proof (cases "Some (generateURLPath svc ?w p) \<in> set (map urlPath (photos w))")
      case True
      then have "insertPhoto ?w ?row = (?w\<lparr>photoSeq := photoSeq w + 1\<rparr>, Inl UniqueViolation)"
        using nf by (simp add: insertPhoto_def)
      then have "processPhoto svc w p f = (?w\<lparr>photoSeq := photoSeq w + 1\<rparr>, Some UniqueViolation)"
        unfolding pp by simp
      then show ?thesis using assms by (auto simp: extends_def)
    next
      case False
      then have "insertPhoto ?w ?row
          = (?w\<lparr>photoSeq := photoSeq w + 1, photos := photos w @ [?row]\<rparr>, Inr (photoSeq w))"
        using nf by (simp add: insertPhoto_def)
      then have "processPhoto svc w p f =
          (?w\<lparr>photoSeq := photoSeq w + 1, photos := photos w @ [?row],
               events := events ?w @ [EvThumbnail (photoSeq w) p ''small'',
                  EvThumbnail (photoSeq w) p ''medium'', EvThumbnail (photoSeq w) p ''large'']\<rparr>, None)"
        unfolding pp by simp
      then show ?thesis using assms by (auto simp: photoPathExists_def extends_def)
    qed
  qed
qed

lemma find_append_cases:
  "find P (xs @ ys) = (case find P xs of None \<Rightarrow> find P ys | Some x \<Rightarrow> Some x)"
  by (induction xs) auto

lemma ensureFolder_found:
  "folderByPath w path = Some r \<Longrightarrow> ensureFolder w path name parentID = (w, folderId r)"
  by (simp add: ensureFolder_def)

lemma ensureFolder_cases:
  assumes "ensureFolder w path name parentID = (w', fid)"
  shows "extends w w' \<and> logged w' = logged w \<and> folderByPath w' path \<noteq> None"
proof (cases "folderByPath w path")
  case (Some r)
  then show ?thesis using assms by (auto simp: ensureFolder_def extends_def)
next
  case None
  then have "folderByPath (w\<lparr>folderSeq := folderSeq w + 1\<rparr>) path = None"
    by (simp add: folderByPath_def)
  then have "ensureFolder w path name parentID =
      (w\<lparr>folderSeq := folderSeq w + 1, folders := folders w @
          [\<lparr>folderId = folderSeq w, parentId = parentID, folderName = name, folderPath = path\<rparr>]\<rparr>,
       folderSeq w)"
    using None by (simp add: ensureFolder_def)
  then show ?thesis
    using assms None by (auto simp: folderByPath_def find_append_cases extends_def)
qed


lemma processPhoto_extends: "extends w (fst (processPhoto svc w p f))"
proof -
  have "processPhoto svc w p f = (fst (processPhoto svc w p f), snd (processPhoto svc w p f))"
    by simp
  from processPhoto_cases [OF this] show ?thesis
    by blast
qed

lemma ensureFolder_extends: "extends w (fst (ensureFolder w path name parentID))"
proof -
  have "ensureFolder w path name parentID
      = (fst (ensureFolder w path name parentID), snd (ensureFolder w path name parentID))"
    by simp
  from ensureFolder_cases [OF this] show ?thesis
    by blast
qed

lemma extends_log: "extends w w' \<Longrightarrow> extends w (w'\<lparr>logged := logged w' @ l\<rparr>)"
  by (auto simp: extends_def)

lemma fileStep_extends:
  "extends w (case processPhoto svc w p f of
                (w', None) \<Rightarrow> w'
              | (w', Some err) \<Rightarrow> w'\<lparr>logged := logged w' @ [p]\<rparr>)"
proof (cases "processPhoto svc w p f")
  case (Pair w' e)
  then have "extends w w'"
    using processPhoto_extends [where w = w and svc = svc and p = p and f = f] by simp
  then have "extends w (w'\<lparr>logged := logged w' @ [p]\<rparr>)"
    by (rule extends_log)
  with \<open>extends w w'\<close> show ?thesis
    using Pair by (cases e) simp_all
qed

lemma scanDir_extends: "extends w (scanDir svc relPath parentID entries w)"
proof (induction svc relPath parentID entries w rule: scanDir.induct)
  case (1 svc relPath parentID w)
  then show ?case by (simp add: extends_refl)
next
  case (2 svc relPath parentID name entries w)
  let ?w' = "if hiddenName name then w
      else if isImageFile (stdlib svc) name
           then case processPhoto svc w (joinPath relPath name) parentID of
                (w, None) \<Rightarrow> w
                | (w, Some err) \<Rightarrow> w\<lparr>logged := logged w @ [joinPath relPath name]\<rparr>
           else w"
  have "extends w ?w'"
    using fileStep_extends [where w = w and svc = svc and p = "joinPath relPath name"
        and f = parentID]
    by (simp add: extends_refl)
  then have "extends w (scanDir svc relPath parentID entries ?w')"
    using 2 by (rule extends_trans)
  then show ?case by (simp only: scanDir.simps)
next
  case (3 svc relPath parentID name children entries w)
  let ?w' = "if hiddenName name then w
       else case ensureFolder w (joinPath relPath name) name parentID of
            (w, folderID) \<Rightarrow> scanDir svc (joinPath relPath name) (Some folderID) children w"
  have "extends w ?w'"
  proof (cases "hiddenName name")
    case True
    then show ?thesis by (simp add: extends_refl)
  next
    case False
    obtain x y where xy: "ensureFolder w (joinPath relPath name) name parentID = (x, y)"
      by (cases "ensureFolder w (joinPath relPath name) name parentID") auto
    have "extends w x"
      using ensureFolder_extends [where w = w and path = "joinPath relPath name"
          and name = name and parentID = parentID] xy by simp
    moreover have "extends x (scanDir svc (joinPath relPath name) (Some y) children x)"
      using 3(1) [OF False xy [symmetric]] .
    ultimately have "extends w (scanDir svc (joinPath relPath name) (Some y) children x)"
      by (rule extends_trans)
    then show ?thesis
      using False xy by simp
  qed
  then have "extends w (scanDir svc relPath parentID entries ?w')"
    using 3(2) by (rule extends_trans)
  then show ?case by (simp only: scanDir.simps)
next
  case (4 svc relPath parentID name entries w)
  let ?w' = "if hiddenName name then w
      else case ensureFolder w (joinPath relPath name) name parentID of
           (w, folderID) \<Rightarrow> w\<lparr>logged := logged w @ [joinPath relPath name]\<rparr>"
  have "extends w ?w'"
  proof (cases "hiddenName name")
    case True
    then show ?thesis by (simp add: extends_refl)
  next
    case False
    obtain x y where xy: "ensureFolder w (joinPath relPath name) name parentID = (x, y)"
      by (cases "ensureFolder w (joinPath relPath name) name parentID") auto
    have "extends w x"
      using ensureFolder_extends [where w = w and path = "joinPath relPath name"
          and name = name and parentID = parentID] xy by simp
    then have "extends w (x\<lparr>logged := logged x @ [joinPath relPath name]\<rparr>)"
      by (rule extends_log)
    then show ?thesis
      using False xy by simp
  qed
  then have "extends w (scanDir svc relPath parentID entries ?w')"
    using 4 by (rule extends_trans)
  then show ?case by (simp only: scanDir.simps)
qed

lemma extends_photoPath: "extends w w' \<Longrightarrow> photoPathExists w p \<Longrightarrow> photoPathExists w' p"
  by (auto simp: extends_def photoPathExists_def)

lemma extends_folder: "extends w w' \<Longrightarrow> folderByPath w p \<noteq> None \<Longrightarrow> folderByPath w' p \<noteq> None"
  by (auto simp: extends_def folderByPath_def find_append_cases)

lemma catalogued_mono:
  "extends w w' \<Longrightarrow> catalogued lib w relPath entries \<Longrightarrow> catalogued lib w' relPath entries"
proof (induction lib w relPath entries rule: catalogued.induct)
  case (1 lib w relPath)
  then show ?case by simp
next
  case (2 lib w relPath name entries)
  then show ?case using extends_photoPath by auto
next
  case (3 lib w relPath name children entries)
  then show ?case using extends_folder by auto
next
  case (4 lib w relPath name entries)
  then show ?case by simp
qed

lemma scanDir_catalogued:
  "catalogued (stdlib svc) w relPath entries \<Longrightarrow> scanDir svc relPath parentID entries w = w"
proof (induction svc relPath parentID entries w rule: scanDir.induct)
  case (1 svc relPath parentID w)
  then show ?case by simp
next
  case (2 svc relPath parentID name entries w)
  have rest: "catalogued (stdlib svc) w relPath entries"
    using 2(2) by simp
  have step: "(if hiddenName name then w
      else if isImageFile (stdlib svc) name
           then case processPhoto svc w (joinPath relPath name) parentID of
                (w, None) \<Rightarrow> w
                | (w, Some err) \<Rightarrow> w\<lparr>logged := logged w @ [joinPath relPath name]\<rparr>
           else w) = w"
    using 2(2) by (auto simp: processPhoto_exists)
  have "scanDir svc relPath parentID entries w = w"
    using 2(1) [unfolded step] rest by simp
  then show ?case
    by (simp only: scanDir.simps step)
next
  case (3 svc relPath parentID name children entries w)
  show ?case
  proof (cases "hiddenName name")
    case True
    then show ?thesis using 3 by simp
  next
    case False
    then obtain r where r: "folderByPath w (joinPath relPath name) = Some r"
      and ch: "catalogued (stdlib svc) w (joinPath relPath name) children"
      and rest: "catalogued (stdlib svc) w relPath entries"
      using 3(3) by auto
    have ef: "ensureFolder w (joinPath relPath name) name parentID = (w, folderId r)"
      using r by (rule ensureFolder_found)
    have "scanDir svc (joinPath relPath name) (Some (folderId r)) children w = w"
      using 3(1) [OF False ef [symmetric] ch] .
    then show ?thesis
      using 3(2) False ef rest by simp
  qed
next
  case (4 svc relPath parentID name entries w)
  then show ?case by simp
qed


lemma log_squeeze:
  assumes "extends a b" "extends b c" "logged c = logged a"
  shows "logged b = logged a \<and> logged c = logged b"
proof -
  obtain l1 where l1: "logged b = logged a @ l1" using assms(1) by (auto simp: extends_def)
  obtain l2 where l2: "logged c = logged b @ l2" using assms(2) by (auto simp: extends_def)
  have "logged a @ l1 @ l2 = logged a @ []" using assms(3) l1 l2 by simp
  then have "l1 @ l2 = []" by (simp only: same_append_eq)
  then show ?thesis using l1 l2 by simp
qed

lemma scanDir_quiet_catalogued:
  "logged (scanDir svc relPath parentID entries w) = logged w \<Longrightarrow>
   catalogued (stdlib svc) (scanDir svc relPath parentID entries w) relPath entries"
proof (induction svc relPath parentID entries w rule: scanDir.induct)
  case (1 svc relPath parentID w)
  then show ?case by simp
next
  case (2 svc relPath parentID name entries w)
  let ?p = "joinPath relPath name"
  let ?w' = "if hiddenName name then w
      else if isImageFile (stdlib svc) name
           then case processPhoto svc w ?p parentID of
                (w, None) \<Rightarrow> w
                | (w, Some err) \<Rightarrow> w\<lparr>logged := logged w @ [?p]\<rparr>
           else w"
  let ?w1 = "scanDir svc relPath parentID entries ?w'"
  have res: "scanDir svc relPath parentID (File name # entries) w = ?w1"
    by (simp only: scanDir.simps)
  have e1: "extends w ?w'"
    using fileStep_extends [where w = w and svc = svc and p = ?p and f = parentID]
    by (simp add: extends_refl)
  have e2: "extends ?w' ?w1" by (rule scanDir_extends)
  have "logged ?w1 = logged w" using 2(2) unfolding res .
  with e1 e2 have lg: "logged ?w' = logged w" "logged ?w1 = logged ?w'"
    using log_squeeze by blast+
  have rest: "catalogued (stdlib svc) ?w1 relPath entries"
    using 2(1) lg(2) .
  have fileOk: "hiddenName name \<or> \<not> isImageFile (stdlib svc) name \<or> photoPathExists ?w1 ?p"
  proof (cases "hiddenName name \<or> \<not> isImageFile (stdlib svc) name")
    case True
    then show ?thesis by blast
  next
    case False
    obtain wp e where pp: "processPhoto svc w ?p parentID = (wp, e)"
      by (cases "processPhoto svc w ?p parentID") auto
    have c: "logged wp = logged w" "e = None \<longrightarrow> photoPathExists wp ?p"
      using processPhoto_cases [OF pp] by simp_all
    have "e = None"
    proof (rule ccontr)
      assume "e \<noteq> None"
      then obtain err where "e = Some err" by auto
      then have "?w' = wp\<lparr>logged := logged wp @ [?p]\<rparr>"
        using False pp by simp
      then have "logged ?w' = logged w @ [?p]"
        using c(1) by simp
      then show False using lg(1) by simp
    qed
    then have "?w' = wp" "photoPathExists wp ?p"
      using False pp c(2) by simp_all
    then have "photoPathExists ?w' ?p" by simp
    then have "photoPathExists ?w1 ?p"
      using e2 extends_photoPath by blast
    then show ?thesis by blast
  qed
  show ?case
    unfolding res using fileOk rest by simp
next
  case (3 svc relPath parentID name children entries w)
  let ?p = "joinPath relPath name"
  let ?w' = "if hiddenName name then w
       else case ensureFolder w ?p name parentID of
            (w, folderID) \<Rightarrow> scanDir svc ?p (Some folderID) children w"
  let ?w1 = "scanDir svc relPath parentID entries ?w'"
  have res: "scanDir svc relPath parentID (Dir name children # entries) w = ?w1"
    by (simp only: scanDir.simps)
  obtain x y where xy: "ensureFolder w ?p name parentID = (x, y)"
    by (cases "ensureFolder w ?p name parentID") auto
  have ex: "extends w x" "logged x = logged w" "folderByPath x ?p \<noteq> None"
    using ensureFolder_cases [OF xy] by simp_all
  let ?wc = "scanDir svc ?p (Some y) children x"
  have exc: "extends x ?wc" by (rule scanDir_extends)
  have w': "\<not> hiddenName name \<Longrightarrow> ?w' = ?wc"
    using xy by simp
  have e1: "extends w ?w'"
  proof (cases "hiddenName name")
    case True
    then show ?thesis by (simp add: extends_refl)
  next
    case False
    have "extends w ?wc" using ex(1) exc by (rule extends_trans)
    then show ?thesis using w' [OF False] by simp
  qed
  have e2: "extends ?w' ?w1" by (rule scanDir_extends)
  have "logged ?w1 = logged w" using 3(3) unfolding res .
  with e1 e2 have lg: "logged ?w' = logged w" "logged ?w1 = logged ?w'"
    using log_squeeze by blast+
  have rest: "catalogued (stdlib svc) ?w1 relPath entries"
    using 3(2) lg(2) .
  have dirOk: "hiddenName name \<or> (folderByPath ?w1 ?p \<noteq> None
      \<and> catalogued (stdlib svc) ?w1 ?p children)"
  proof (cases "hiddenName name")
    case True
    then show ?thesis by blast
  next
    case False
    have wc: "?w' = ?wc" using w' [OF False] .
    have "logged ?wc = logged x"
      using lg(1) ex(2) unfolding wc by simp
    then have "catalogued (stdlib svc) ?wc ?p children"
      using 3(1) [OF False xy [symmetric]] by simp
    moreover have e3: "extends ?wc ?w1"
      using e2 unfolding wc .
    ultimately have "catalogued (stdlib svc) ?w1 ?p children"
      using catalogued_mono by blast
    moreover have "folderByPath ?wc ?p \<noteq> None"
      using exc ex(3) by (rule extends_folder)
    then have "folderByPath ?w1 ?p \<noteq> None"
      using e3 extends_folder by blast
    ultimately show ?thesis by blast
  qed
  show ?case
    unfolding res using dirOk rest by simp
next
  case (4 svc relPath parentID name entries w)
  let ?p = "joinPath relPath name"
  let ?w' = "if hiddenName name then w
      else case ensureFolder w ?p name parentID of
           (w, folderID) \<Rightarrow> w\<lparr>logged := logged w @ [?p]\<rparr>"
  let ?w1 = "scanDir svc relPath parentID entries ?w'"
  have res: "scanDir svc relPath parentID (Unreadable name # entries) w = ?w1"
    by (simp only: scanDir.simps)
  obtain x y where xy: "ensureFolder w ?p name parentID = (x, y)"
    by (cases "ensureFolder w ?p name parentID") auto
  have ex: "extends w x" "logged x = logged w"
    using ensureFolder_cases [OF xy] by simp_all
  have e1: "extends w ?w'"
  proof (cases "hiddenName name")
    case True
    then show ?thesis by (simp add: extends_refl)
  next
    case False
    have "extends w (x\<lparr>logged := logged x @ [?p]\<rparr>)"
      using ex(1) by (rule extends_log)
    then show ?thesis using False xy by simp
  qed
  have e2: "extends ?w' ?w1" by (rule scanDir_extends)
  have "logged ?w1 = logged w" using 4(2) unfolding res .
  with e1 e2 have lg: "logged ?w' = logged w" "logged ?w1 = logged ?w'"
    using log_squeeze by blast+
  have rest: "catalogued (stdlib svc) ?w1 relPath entries"
    using 4(1) lg(2) .
  have isHidden: "hiddenName name"
  proof (rule ccontr)
    assume "\<not> hiddenName name"
    then have "logged ?w' = logged w @ [?p]"
      using xy ex(2) by simp
    then show False using lg(1) by simp
  qed
  show ?case
    unfolding res using isHidden rest by simp
qed

lemma rescan_identity:
  assumes "logged (scanDir svc relPath parentID entries w) = logged w"
  shows "scanDir svc relPath parentID' entries (scanDir svc relPath parentID entries w)
       = scanDir svc relPath parentID entries w"
  using scanDir_quiet_catalogued [OF assms] by (rule scanDir_catalogued)


text \<open>
  C6. For a photo whose path is in the catalog \<open>processPhoto\<close> returns \<open>nil\<close> and
  leaves everything as it was: no GPS stripping, no extraction, no derivative, no row
  written. For a folder whose path is in the catalog \<open>ensureFolder\<close> returns its
  identity and changes nothing. So a scan of entries that are all catalogued changes
  nothing, and when a scan has gone through without logging an error, scanning the same
  entries again (under any parent identity) leaves the folders, the photos, the
  sequences and the list of work done exactly as the first scan left them.
\<close>

theorem rescan_idempotent:
  "(photoPathExists w photo \<longrightarrow> processPhoto svc w photo folderID = (w, None))
   \<and> (\<forall>r. folderByPath w path = Some r \<longrightarrow>
          ensureFolder w path name parentID = (w, folderId r))
   \<and> (catalogued (stdlib svc) w relPath entries \<longrightarrow>
          scanDir svc relPath parentID entries w = w)
   \<and> (logged (scanDir svc relPath parentID entries w) = logged w \<longrightarrow>
          scanDir svc relPath parentID' entries (scanDir svc relPath parentID entries w)
            = scanDir svc relPath parentID entries w)"
proof (intro conjI impI allI)
  assume "photoPathExists w photo"
  then show "processPhoto svc w photo folderID = (w, None)"
    by (rule processPhoto_exists)
next
  fix r assume "folderByPath w path = Some r"
  then show "ensureFolder w path name parentID = (w, folderId r)"
    by (rule ensureFolder_found)
next
  assume "catalogued (stdlib svc) w relPath entries"
  then show "scanDir svc relPath parentID entries w = w"
    by (rule scanDir_catalogued)
next
  assume "logged (scanDir svc relPath parentID entries w) = logged w"
  then show "scanDir svc relPath parentID' entries (scanDir svc relPath parentID entries w)
      = scanDir svc relPath parentID entries w"
    by (rule rescan_identity)
qed

theorem rescan_idempotent_witness:
  "scanDir plainServices [] None tripsTree (scanDir plainServices [] None tripsTree emptyWorld)
     = scanDir plainServices [] None tripsTree emptyWorld
   \<and> processPhoto plainServices (scanDir plainServices [] None tripsTree emptyWorld)
         ''Trips/2024 Paris/IMG_0001.JPG'' (Some 2)
     = (scanDir plainServices [] None tripsTree emptyWorld, None)
   \<and> ensureFolder (scanDir plainServices [] None tripsTree emptyWorld) ''Trips'' ''Trips'' None
     = (scanDir plainServices [] None tripsTree emptyWorld, 1)"
proof -
  let ?w1 = "scanDir plainServices [] None tripsTree emptyWorld"
  have h1: "photoPathExists ?w1 ''Trips/2024 Paris/IMG_0001.JPG''"
    by code_simp
  have h2: "folderByPath ?w1 ''Trips''
      = Some \<lparr>folderId = 1, parentId = None, folderName = ''Trips'', folderPath = ''Trips''\<rparr>"
    by code_simp
  have h3: "logged ?w1 = logged emptyWorld"
    by code_simp
  have id1: "folderId \<lparr>folderId = 1, parentId = None, folderName = ''Trips'',
      folderPath = ''Trips''\<rparr> = 1"
    by simp
  note at_w1 = rescan_idempotent [where w = ?w1 and svc = plainServices
        and photo = "''Trips/2024 Paris/IMG_0001.JPG''" and folderID = "Some 2"
        and path = "''Trips''" and name = "''Trips''" and parentID = None
        and relPath = "[]" and entries = tripsTree and parentID' = None]
  note at_empty = rescan_idempotent [where w = emptyWorld and svc = plainServices
        and relPath = "[]" and entries = tripsTree and parentID = None and parentID' = None]
  have c1: "scanDir plainServices [] None tripsTree ?w1 = ?w1"
    using at_empty h3 by blast
  have c2: "processPhoto plainServices ?w1 ''Trips/2024 Paris/IMG_0001.JPG'' (Some 2) = (?w1, None)"
    using at_w1 h1 by blast
  have "ensureFolder ?w1 ''Trips'' ''Trips'' None
      = (?w1, folderId \<lparr>folderId = 1, parentId = None, folderName = ''Trips'',
           folderPath = ''Trips''\<rparr>)"
    using at_w1 h2 by blast
  then have c3: "ensureFolder ?w1 ''Trips'' ''Trips'' None = (?w1, 1)"
    by (simp only: id1)
  from c1 c2 c3 show ?thesis by (intro conjI)
qed

subsection \<open>GPS stripping: layout and idempotence\<close>

lemma tiffByteOrder_mark:
  assumes "12 \<le> length seg"
  shows "tiffByteOrder seg = byteOrderMark (drop 10 seg)"
proof -
  define n where "n = length seg - 12"
  have l: "length (drop 10 seg) = Suc (Suc n)" unfolding n_def using assms by simp
  then obtain a b r where d: "drop 10 seg = a # b # r"
    by (cases "drop 10 seg"; cases "tl (drop 10 seg)") simp_all
  have "drop 10 seg ! 0 = seg ! (10 + 0)" "drop 10 seg ! 1 = seg ! (10 + 1)"
    using assms by (simp_all add: nth_drop)
  then have ab: "seg ! 10 = a" "seg ! 11 = b" unfolding d by simp_all
  show ?thesis unfolding tiffByteOrder_def byteOrderMark_def d ab by simp
qed

lemma tiffHeader_alt:
  "tiffHeader seg =
     (if length seg < 18 then None
      else
        (case byteOrderMark (drop 10 seg) of
           None \<Rightarrow> None
         | Some bo \<Rightarrow>
             let ifdOffset = uint32 bo (seg ! 14) (seg ! 15) (seg ! 16) (seg ! 17) in
             if ifdOffset + 2 > length seg - 10 then None
             else Some (bo, 10 + ifdOffset + 2,
                        uint16 bo (seg ! (10 + ifdOffset)) (seg ! (10 + ifdOffset + 1)))))"
proof (cases "length seg < 18")
  case True
  then show ?thesis by (simp add: tiffHeader_def)
next
  case False
  then have "tiffByteOrder seg = byteOrderMark (drop 10 seg)"
    by (intro tiffByteOrder_mark) simp
  then show ?thesis using False by (simp add: tiffHeader_def)
qed

lemma zeroBytes_length [simp]: "length (zeroBytes r j n) = length r"
  by (induction n arbitrary: r j) simp_all

lemma zeroBytes_nth:
  "k < length r \<Longrightarrow> zeroBytes r j n ! k = (if j \<le> k \<and> k < j + n then 0 else r ! k)"
proof (induction n arbitrary: r j)
  case 0
  then show ?case by auto
next
  case (Suc n)
  have "zeroBytes (r[j := 0]) (Suc j) n ! k
          = (if Suc j \<le> k \<and> k < Suc j + n then 0 else r[j := 0] ! k)"
    using Suc.prems by (intro Suc.IH) simp
  then show ?case using Suc.prems by (auto simp: nth_list_update)
qed

lemma cleared_length [simp]: "length (cleared bo first seg i) = length seg"
  by (simp add: cleared_def)

lemma cleared_nth:
  "k < length seg \<Longrightarrow> cleared bo first seg i ! k = (if covered bo first seg i k then 0 else seg ! k)"
  by (simp add: cleared_def)

lemma covered_0 [simp]: "\<not> covered bo first seg 0 k"
  by (simp add: covered_def)

lemma covered_Suc:
  "covered bo first seg (Suc i) k =
     (covered bo first seg i k
      \<or> (gpsEntryAt bo first seg i \<and> first + i * 12 \<le> k \<and> k < first + i * 12 + 12))"
  unfolding covered_def using less_Suc_eq by auto

lemma covered_below:
  assumes "covered bo first seg i k"
  shows "k < first + i * 12"
proof -
  from assms obtain i' where "i' < i" "k < first + i' * 12 + 12"
    unfolding covered_def by blast
  then show ?thesis by arith
qed

lemma cleared_entry_untouched:
  assumes "first + i * 12 \<le> k" "k < length seg"
  shows "cleared bo first seg i ! k = seg ! k"
proof -
  have "\<not> covered bo first seg i k"
    using covered_below [of bo first seg i k] assms(1) by auto
  then show ?thesis using assms(2) by (simp add: cleared_nth)
qed

lemma cleared_Suc_no:
  assumes "\<not> gpsEntryAt bo first seg i"
  shows "cleared bo first seg (Suc i) = cleared bo first seg i"
  using assms by (simp add: cleared_def covered_Suc)

lemma cleared_Suc_yes:
  assumes "gpsEntryAt bo first seg i"
  shows "zeroBytes (cleared bo first seg i) (first + i * 12) 12 = cleared bo first seg (Suc i)"
proof (rule nth_equalityI)
  show "length (zeroBytes (cleared bo first seg i) (first + i * 12) 12)
          = length (cleared bo first seg (Suc i))" by simp
next
  fix k assume "k < length (zeroBytes (cleared bo first seg i) (first + i * 12) 12)"
  then have k: "k < length seg" by simp
  have "zeroBytes (cleared bo first seg i) (first + i * 12) 12 ! k
          = (if first + i * 12 \<le> k \<and> k < first + i * 12 + 12 then 0
             else cleared bo first seg i ! k)"
    using k by (intro zeroBytes_nth) simp
  also have "\<dots> = cleared bo first seg (Suc i) ! k"
    using k assms by (simp add: cleared_nth covered_Suc)
  finally show "zeroBytes (cleared bo first seg i) (first + i * 12) 12 ! k
                  = cleared bo first seg (Suc i) ! k" .
qed

lemma gpsEntryAt_fits:
  assumes "gpsEntryAt bo first seg i'" "first + i * 12 + 12 > length seg"
  shows "i' < i"
proof -
  from assms(1) have "first + i' * 12 + 12 \<le> length seg" by (simp add: gpsEntryAt_def)
  then show ?thesis using assms(2) by arith
qed

lemma covered_beyond:
  assumes "first + i * 12 + 12 > length seg" "i \<le> n"
  shows "covered bo first seg n k = covered bo first seg i k"
proof
  assume "covered bo first seg n k"
  then obtain i' where i': "i' < n" "gpsEntryAt bo first seg i'"
      "first + i' * 12 \<le> k" "k < first + i' * 12 + 12"
    unfolding covered_def by blast
  have "i' < i" using gpsEntryAt_fits [OF i'(2) assms(1)] .
  then show "covered bo first seg i k" unfolding covered_def using i' by blast
next
  assume "covered bo first seg i k"
  then obtain i' where i': "i' < i" "gpsEntryAt bo first seg i'"
      "first + i' * 12 \<le> k" "k < first + i' * 12 + 12"
    unfolding covered_def by blast
  have "i' < n" using i'(1) assms(2) by simp
  then show "covered bo first seg n k" unfolding covered_def using i' by blast
qed

lemma cleared_beyond:
  assumes "first + i * 12 + 12 > length seg" "i \<le> n"
  shows "cleared bo first seg n = cleared bo first seg i"
  by (simp add: cleared_def covered_beyond [OF assms])

lemma removeGPSLoop_cleared:
  assumes "10 \<le> length seg" "i \<le> n"
  shows "removeGPSLoop bo offset n i (cleared bo (10 + offset) seg i) m
           = (cleared bo (10 + offset) seg n,
              m \<or> (\<exists>i'\<in>{i..<n}. gpsEntryAt bo (10 + offset) seg i'))"
  using assms(2)
proof (induction "n - i" arbitrary: i m)
  case 0
  then have "i = n" by simp
  then show ?case by (subst removeGPSLoop.simps) simp
next
  case (Suc d)
  then have lt: "i < n" by simp
  let ?r = "cleared bo (10 + offset) seg i"
  show ?case
  proof (cases "offset + i * 12 + 12 > length seg - 10")
    case True
    then have big: "10 + offset + i * 12 + 12 > length seg" using assms(1) by arith
    have none: "\<not> (\<exists>i'\<in>{i..<n}. gpsEntryAt bo (10 + offset) seg i')"
    proof
      assume "\<exists>i'\<in>{i..<n}. gpsEntryAt bo (10 + offset) seg i'"
      then obtain i' where "i \<le> i'" "gpsEntryAt bo (10 + offset) seg i'" by auto
      then show False using gpsEntryAt_fits [of bo "10 + offset" seg i' i] big by simp
    qed
    have "removeGPSLoop bo offset n i ?r m = (?r, m)"
      using lt True by (subst removeGPSLoop.simps) simp
    then show ?thesis
      using none cleared_beyond [of seg "10 + offset" i n bo] big lt by simp
  next
    case False
    then have fits: "10 + offset + i * 12 + 12 \<le> length seg" using assms(1) by arith
    have t0: "?r ! (10 + (offset + i * 12)) = seg ! (10 + offset + i * 12)"
      using cleared_entry_untouched [of "10 + offset" i "10 + offset + i * 12" seg bo] fits
      by (simp add: add.assoc)
    have t1: "?r ! (10 + (offset + i * 12) + 1) = seg ! (10 + offset + i * 12 + 1)"
      using cleared_entry_untouched [of "10 + offset" i "10 + offset + i * 12 + 1" seg bo] fits
      by (simp add: add.assoc)
    have rng: "(\<exists>i'\<in>{i..<n}. gpsEntryAt bo (10 + offset) seg i')
                = (gpsEntryAt bo (10 + offset) seg i
                   \<or> (\<exists>i'\<in>{Suc i..<n}. gpsEntryAt bo (10 + offset) seg i'))"
      using lt by (metis atLeastLessThan_iff le_eq_less_or_eq Suc_le_eq order_refl)
    have d: "d = n - Suc i" using Suc.hyps(2) by simp
    show ?thesis
    proof (cases "gpsEntryAt bo (10 + offset) seg i")
      case True
      then have tag: "uint16 bo (?r ! (10 + (offset + i * 12))) (?r ! (10 + (offset + i * 12) + 1)) = 0x8825"
        unfolding t0 t1 by (simp add: gpsEntryAt_def)
      have "removeGPSLoop bo offset n i ?r m
              = removeGPSLoop bo offset n (i + 1) (zeroBytes ?r (10 + (offset + i * 12)) 12) True"
        using lt False tag by (subst removeGPSLoop.simps) (simp del: zeroBytes.simps)
      also have "zeroBytes ?r (10 + (offset + i * 12)) 12 = cleared bo (10 + offset) seg (Suc i)"
        using cleared_Suc_yes [OF True] by (simp add: add.assoc)
      also have "removeGPSLoop bo offset n (i + 1) (cleared bo (10 + offset) seg (Suc i)) True
                  = (cleared bo (10 + offset) seg n,
                     True \<or> (\<exists>i'\<in>{Suc i..<n}. gpsEntryAt bo (10 + offset) seg i'))"
        using Suc.hyps(1) [of "Suc i" True] d lt by simp
      finally show ?thesis using True rng by simp
    next
      case no: False
      then have tag: "uint16 bo (?r ! (10 + (offset + i * 12))) (?r ! (10 + (offset + i * 12) + 1)) \<noteq> 0x8825"
        unfolding t0 t1 using fits by (simp add: gpsEntryAt_def)
      have step: "removeGPSLoop bo offset n i ?r m = removeGPSLoop bo offset n (i + 1) ?r m"
        using lt False tag by (subst removeGPSLoop.simps) (simp del: zeroBytes.simps)
      have same: "?r = cleared bo (10 + offset) seg (Suc i)"
        using cleared_Suc_no [OF no] by simp
      have "removeGPSLoop bo offset n (i + 1) (cleared bo (10 + offset) seg (Suc i)) m
                  = (cleared bo (10 + offset) seg n,
                     m \<or> (\<exists>i'\<in>{Suc i..<n}. gpsEntryAt bo (10 + offset) seg i'))"
        using Suc.hyps(1) [of "Suc i" m] d lt by simp
      then have "removeGPSLoop bo offset n (i + 1) ?r m
                  = (cleared bo (10 + offset) seg n,
                     m \<or> (\<exists>i'\<in>{Suc i..<n}. gpsEntryAt bo (10 + offset) seg i'))"
        unfolding same [symmetric] .
      then show ?thesis unfolding step using no rng by simp
    qed
  qed
qed


lemma cleared_0 [simp]: "cleared bo first seg 0 = seg"
  by (simp add: cleared_def map_nth)

lemma inGPSEntry_covered:
  assumes "tiffHeader seg = Some (bo, first, n)"
  shows "inGPSEntry seg k = covered bo first seg n k"
  unfolding inGPSEntry_def gpsEntries_def covered_def using assms by auto

lemma zeroGPS_cleared:
  assumes "tiffHeader seg = Some (bo, first, n)"
  shows "zeroGPS seg = cleared bo first seg n"
  unfolding zeroGPS_def cleared_def using inGPSEntry_covered [OF assms] by simp

lemma gpsEntries_nonempty:
  assumes "tiffHeader seg = Some (bo, first, n)"
  shows "(gpsEntries seg \<noteq> []) = (\<exists>i\<in>{0..<n}. gpsEntryAt bo first seg i)"
  unfolding gpsEntries_def using assms by (auto simp: filter_empty_conv)

lemma zeroGPS_no_header:
  assumes "tiffHeader seg = None"
  shows "zeroGPS seg = seg" "gpsEntries seg = []"
proof -
  show g: "gpsEntries seg = []" using assms by (simp add: gpsEntries_def)
  show "zeroGPS seg = seg" by (simp add: zeroGPS_def inGPSEntry_def g map_nth)
qed

lemma removeGPSFromExif_spec:
  "removeGPSFromExif seg = (zeroGPS seg, gpsEntries seg \<noteq> [])"
proof (cases "tiffHeader seg")
  case None
  have "removeGPSFromExif seg = (seg, False)"
    using None
    by (auto simp: removeGPSFromExif_def tiffHeader_alt Let_def nth_drop
             split: option.splits if_splits)
  then show ?thesis using zeroGPS_no_header [OF None] by simp
next
  case (Some h)
  obtain bo first n where h: "h = (bo, first, n)" by (cases h)
  have hdr: "tiffHeader seg = Some (bo, first, n)" using Some h by simp
  define off where "off = uint32 bo (seg ! 14) (seg ! 15) (seg ! 16) (seg ! 17)"
  have len: "18 \<le> length seg" and bom: "byteOrderMark (drop 10 seg) = Some bo"
    and fit: "off + 2 \<le> length seg - 10" and first: "first = 10 + (off + 2)"
    and n: "n = uint16 bo (seg ! (10 + off)) (seg ! (10 + off + 1))"
    using hdr unfolding tiffHeader_alt off_def
    by (auto simp: Let_def split: option.splits if_splits)
  have "removeGPSFromExif seg = removeGPSLoop bo (off + 2) n 0 seg False"
  proof -
    have l8: "\<not> length seg - 10 < 8" and l12: "\<not> length seg < 12" using len by arith+
    show ?thesis
      using l8 l12 bom fit unfolding removeGPSFromExif_def off_def n
      by (simp add: Let_def nth_drop add.commute)
  qed
  also have "\<dots> = removeGPSLoop bo (off + 2) n 0 (cleared bo (10 + (off + 2)) seg 0) False"
    by simp
  also have "\<dots> = (cleared bo (10 + (off + 2)) seg n,
                    False \<or> (\<exists>i'\<in>{0..<n}. gpsEntryAt bo (10 + (off + 2)) seg i'))"
    using len by (intro removeGPSLoop_cleared) simp_all
  finally show ?thesis
    unfolding zeroGPS_cleared [OF hdr] gpsEntries_nonempty [OF hdr] first by simp
qed


lemma zeroGPS_length [simp]: "length (zeroGPS seg) = length seg"
  by (simp add: zeroGPS_def)

lemma zeroGPS_nth:
  "k < length seg \<Longrightarrow> zeroGPS seg ! k = (if inGPSEntry seg k then 0 else seg ! k)"
  by (simp add: zeroGPS_def)

lemma tiffHeader_first:
  assumes "tiffHeader seg = Some (bo, first, n)"
  shows "12 \<le> first"
  using assms unfolding tiffHeader_alt
  by (auto simp: Let_def split: option.splits if_splits)

lemma inGPSEntry_ge_12:
  assumes "inGPSEntry seg k"
  shows "12 \<le> k"
proof (cases "tiffHeader seg")
  case None
  then show ?thesis using assms by (simp add: inGPSEntry_def gpsEntries_def)
next
  case (Some h)
  obtain bo first n where h: "h = (bo, first, n)" by (cases h)
  have hdr: "tiffHeader seg = Some (bo, first, n)" using Some h by simp
  from assms obtain i where "first + i * 12 \<le> k"
    unfolding inGPSEntry_def gpsEntries_def using hdr by auto
  then show ?thesis using tiffHeader_first [OF hdr] by arith
qed

lemma zeroGPS_take:
  assumes "n \<le> 12"
  shows "take n (zeroGPS seg) = take n seg"
proof (rule nth_equalityI)
  show "length (take n (zeroGPS seg)) = length (take n seg)" by simp
next
  fix k assume "k < length (take n (zeroGPS seg))"
  then have k: "k < n" "k < length seg" by simp_all
  then have "\<not> inGPSEntry seg k" using inGPSEntry_ge_12 [of seg k] assms by auto
  then show "take n (zeroGPS seg) ! k = take n seg ! k"
    using k by (simp add: zeroGPS_nth)
qed

lemma encodeSegment_length [simp]: "length (encodeSegment s) = length (snd s) + 4"
  by (simp add: encodeSegment_def)

lemma encodeSegment_take4:
  "take 4 (encodeSegment s)
     = [0xFF, fst s, of_nat ((length (snd s) + 2) div 256), of_nat ((length (snd s) + 2) mod 256)]"
  by (simp add: encodeSegment_def)

lemma encodeSegment_drop4 [simp]: "drop 4 (encodeSegment s) = snd s"
  by (simp add: encodeSegment_def)

lemma encodeSegment_strip:
  "encodeSegment (stripSegment s)
     = (if isExifSegment s then zeroGPS (encodeSegment s) else encodeSegment s)"
proof (cases "isExifSegment s")
  case False
  then show ?thesis by (simp add: stripSegment_def)
next
  case True
  let ?z = "zeroGPS (encodeSegment s)"
  have "encodeSegment (fst s, drop 4 ?z) = take 4 (encodeSegment s) @ drop 4 ?z"
    by (simp add: encodeSegment_def)
  also have "take 4 (encodeSegment s) = take 4 ?z"
    by (rule zeroGPS_take [symmetric]) simp
  finally show ?thesis using True by (simp add: stripSegment_def)
qed

lemma stripSegment_marker [simp]: "fst (stripSegment s) = fst s"
  by (simp add: stripSegment_def)

lemma stripSegment_length [simp]: "length (snd (stripSegment s)) = length (snd s)"
  by (simp add: stripSegment_def)

lemma stripSegment_valid [simp]: "validSegment (stripSegment s) = validSegment s"
  by (simp add: validSegment_def)

lemma length_field:
  assumes "n < 65536"
  shows "uint16 BigEndian (of_nat (n div 256)) (of_nat (n mod 256)) = n"
proof -
  have hi: "n div 256 < 256" using assms by arith
  have "unat (of_nat (n div 256) :: byte) = n div 256"
    using hi by (simp add: unat_of_nat take_bit_nat_eq_self)
  moreover have "unat (of_nat (n mod 256) :: byte) = n mod 256"
    by (simp add: unat_of_nat take_bit_nat_eq_self)
  ultimately show ?thesis by (simp add: uint16_def)
qed


lemma exifSignature_test:
  assumes "take 1 rest = [0xFF]"
  shows "(take 6 (p @ rest) = exifSignature) = (take 6 p = exifSignature)"
proof (cases "6 \<le> length p")
  case True
  then show ?thesis by simp
next
  case False
  then have short: "length p < 6" by simp
  have r0: "rest \<noteq> []" "rest ! 0 = 0xFF"
    using assms by (cases rest; simp)+
  have no: "\<And>j. j < 6 \<Longrightarrow> exifSignature ! j \<noteq> 0xFF"
  proof -
    fix j :: nat assume "j < 6"
    then consider "j = 0" | "j = 1" | "j = 2" | "j = 3" | "j = 4" | "j = 5" by arith
    then show "exifSignature ! j \<noteq> 0xFF"
      by cases (simp_all add: exifSignature_def)
  qed
  have "take 6 (p @ rest) \<noteq> exifSignature"
  proof
    assume eq: "take 6 (p @ rest) = exifSignature"
    have "take 6 (p @ rest) ! length p = (p @ rest) ! length p"
      using short by (intro nth_take)
    also have "\<dots> = 0xFF" using r0 by (simp add: nth_append)
    finally show False using eq no [OF short] by simp
  qed
  moreover have "take 6 p \<noteq> exifSignature"
  proof
    assume "take 6 p = exifSignature"
    then have "length (take 6 p) = 6" by (simp add: exifSignature_def)
    then show False using short by simp
  qed
  ultimately show ?thesis by simp
qed

lemma stripWalk_segment:
  assumes valid: "validSegment s"
      and rest: "take 1 rest = [0xFF]" "2 \<le> length rest"
      and data: "data = pre @ encodeSegment s @ rest"
  shows "stripWalk slack data (length pre) result m
           = stripWalk slack data (length pre + length (encodeSegment s))
               (result @ encodeSegment (stripSegment s))
               (m \<or> (isExifSegment s \<and> gpsEntries (encodeSegment s) \<noteq> []))"
proof -
  let ?e = "encodeSegment s"
  let ?pos = "length pre"
  have len: "length data = ?pos + (length (snd s) + 4) + length rest"
    using data by simp
  have f1: "?pos < length data - 1" using len by simp
  have at: "\<And>k. k < length ?e \<Longrightarrow> data ! (?pos + k) = ?e ! k"
    using data by (simp add: nth_append)
  have f2: "data ! ?pos = 0xFF"
    using at [of 0] by (simp add: encodeSegment_def)
  have f3: "data ! (?pos + 1) = fst s"
    using at [of 1] by (simp add: encodeSegment_def)
  have f4: "\<not> ?pos + 4 > length data" using len by simp
  have b2: "data ! (?pos + 2) = of_nat ((length (snd s) + 2) div 256)"
    using at [of 2] by (simp add: encodeSegment_def)
  have b3: "data ! (?pos + 3) = of_nat ((length (snd s) + 2) mod 256)"
    using at [of 3] by (simp add: encodeSegment_def)
  have f5: "uint16 BigEndian (data ! (?pos + 2)) (data ! (?pos + 3)) + 2 = length ?e"
    unfolding b2 b3 using valid length_field [of "length (snd s) + 2"]
    by (simp add: validSegment_def)
  have dr: "drop (?pos + 4) data = snd s @ rest"
    using data by (simp add: encodeSegment_def)
  have sig: "(take 6 (drop (?pos + 4) data) = exifSignature) = (take 6 (snd s) = exifSignature)"
    unfolding dr by (rule exifSignature_test [OF rest(1)])
  have long: "take 6 (snd s) = exifSignature \<Longrightarrow> ?pos + 10 < length data"
  proof -
    assume "take 6 (snd s) = exifSignature"
    then have "length (take 6 (snd s)) = 6" by (simp add: exifSignature_def)
    then have "6 \<le> length (snd s)" by simp
    then show ?thesis using len rest(2) by simp
  qed
  have f6: "(fst s = 0xE1 \<and> ?pos + 10 < length data
             \<and> take 6 (drop (?pos + 4) data) = exifSignature) = isExifSegment s"
    unfolding sig isExifSegment_def using long by blast
  have f7: "sliceTo slack data ?pos (?pos + length ?e) = Some ?e"
    using data by (simp add: sliceTo_def)
  have ne: "fst s \<noteq> 0xD9" "fst s \<noteq> 0xDA" using valid by (simp_all add: validSegment_def)
  show ?thesis
  proof (cases "isExifSegment s")
    case True
    then have c: "fst s = 0xE1 \<and> ?pos + 10 < length data
             \<and> take 6 (drop (?pos + 4) data) = exifSignature" using f6 by simp
    show ?thesis
      apply (subst stripWalk.simps)
      apply (simp only: f1 f2 f3 f4 f5 f7 c ne Let_def if_True if_False not_True_eq_False
                simp_thms option.case removeGPSFromExif_spec prod.case True
                encodeSegment_strip)
      apply simp
      done
  next
    case False
    then have c: "\<not> (fst s = 0xE1 \<and> ?pos + 10 < length data
             \<and> take 6 (drop (?pos + 4) data) = exifSignature)" using f6 by simp
    show ?thesis
      apply (subst stripWalk.simps)
      apply (simp only: f1 f2 f3 f4 f5 f7 c ne Let_def if_True if_False not_True_eq_False
                simp_thms option.case False encodeSegment_strip)
      done
  qed
qed


lemma validTail_shape:
  assumes "validTail t"
  shows "2 \<le> length t" "t ! 0 = 0xFF" "t ! 1 = 0xD9 \<or> t ! 1 = 0xDA" "take 1 t = [0xFF]"
proof -
  from assms obtain a b r where t: "t = a # b # r"
    unfolding validTail_def by (cases t; cases "tl t"; auto)
  show "2 \<le> length t" using t by simp
  show "t ! 0 = 0xFF" using assms t by (auto simp: validTail_def)
  show "t ! 1 = 0xD9 \<or> t ! 1 = 0xDA" using assms t by (auto simp: validTail_def)
  show "take 1 t = [0xFF]" using assms t by (auto simp: validTail_def)
qed

lemma stripWalk_tail:
  assumes "validTail t"
  shows "stripWalk slack (pre @ t) (length pre) result m = Some (result @ t, m)"
proof -
  note sh = validTail_shape [OF assms]
  have f1: "length pre < length (pre @ t) - 1" using sh(1) by simp
  have f2: "(pre @ t) ! length pre = 0xFF" using sh(2) by (simp add: nth_append)
  have f3: "(pre @ t) ! (length pre + 1) = t ! 1" by (simp add: nth_append)
  have f4: "drop (length pre) (pre @ t) = t" by simp
  show ?thesis
    apply (subst stripWalk.simps)
    apply (simp only: f1 f2 f3 f4 if_True if_False simp_thms Let_def)
    using sh(3) apply auto
    done
qed

lemma segments_rest:
  assumes "validTail t"
  shows "take 1 (concat (map encodeSegment segs) @ t) = [0xFF]"
    and "2 \<le> length (concat (map encodeSegment segs) @ t)"
proof -
  note sh = validTail_shape [OF assms]
  show "take 1 (concat (map encodeSegment segs) @ t) = [0xFF]"
    using sh(4) by (cases segs) (simp_all add: encodeSegment_def)
  show "2 \<le> length (concat (map encodeSegment segs) @ t)"
    using sh(1) by simp
qed

lemma stripWalk_segments:
  assumes "\<forall>s\<in>set segs. validSegment s" and "validTail t"
  shows "stripWalk slack (pre @ concat (map encodeSegment segs) @ t) (length pre) result m
           = Some (result @ concat (map encodeSegment (map stripSegment segs)) @ t,
                   m \<or> (\<exists>s\<in>set segs. isExifSegment s \<and> gpsEntries (encodeSegment s) \<noteq> []))"
  using assms(1)
proof (induction segs arbitrary: pre result m)
  case Nil
  show ?case using stripWalk_tail [OF assms(2)] by simp
next
  case (Cons s segs)
  let ?rest = "concat (map encodeSegment segs) @ t"
  let ?data = "pre @ encodeSegment s @ ?rest"
  let ?g = "isExifSegment s \<and> gpsEntries (encodeSegment s) \<noteq> []"
  have v: "validSegment s" and vs: "\<forall>s\<in>set segs. validSegment s"
    using Cons.prems by simp_all
  have step: "stripWalk slack ?data (length pre) result m
           = stripWalk slack ?data (length pre + length (encodeSegment s))
               (result @ encodeSegment (stripSegment s)) (m \<or> ?g)"
    by (rule stripWalk_segment [OF v segments_rest [OF assms(2)]]) (rule refl)
  have ih: "stripWalk slack ((pre @ encodeSegment s) @ ?rest) (length (pre @ encodeSegment s))
              (result @ encodeSegment (stripSegment s)) (m \<or> ?g)
           = Some ((result @ encodeSegment (stripSegment s))
                     @ concat (map encodeSegment (map stripSegment segs)) @ t,
                   (m \<or> ?g) \<or> (\<exists>s\<in>set segs. isExifSegment s \<and> gpsEntries (encodeSegment s) \<noteq> []))"
    by (rule Cons.IH [OF vs])
  have d: "pre @ concat (map encodeSegment (s # segs)) @ t = ?data" by simp
  have d': "(pre @ encodeSegment s) @ ?rest = ?data" by simp
  have l: "length (pre @ encodeSegment s) = length pre + length (encodeSegment s)" by simp
  show ?case
    unfolding d step using ih unfolding d' l by auto
qed


lemma uint32_small:
  assumes "uint32 bo b0 b1 b2 b3 \<le> 5"
  shows "bo = LittleEndian \<Longrightarrow> unat b0 = uint32 bo b0 b1 b2 b3 \<and> unat b1 = 0 \<and> unat b2 = 0 \<and> unat b3 = 0"
    and "bo = BigEndian \<Longrightarrow> unat b3 = uint32 bo b0 b1 b2 b3 \<and> unat b2 = 0 \<and> unat b1 = 0 \<and> unat b0 = 0"
  using assms by (simp_all add: uint32_def)

lemma gps_tag_bytes:
  assumes "uint16 bo x y = 0x8825"
  shows "bo = LittleEndian \<Longrightarrow> unat x = 0x25 \<and> unat y = 0x88"
    and "bo = BigEndian \<Longrightarrow> unat y = 0x25 \<and> unat x = 0x88"
proof -
  have x: "unat x < 256" using unsigned_less [of x, where ?'a = nat] by simp
  have y: "unat y < 256" using unsigned_less [of y, where ?'a = nat] by simp
  have split: "\<And>a b :: nat. a < 256 \<Longrightarrow> a + 256 * b = 34853 \<Longrightarrow> a = 37 \<and> b = 136"
  proof -
    fix a b :: nat assume a: "a < 256" and e: "a + 256 * b = 34853"
    have "(a + 256 * b) div 256 = b" using a by simp
    then have b: "b = 136" unfolding e by simp
    then show "a = 37 \<and> b = 136" using e by simp
  qed
  show "bo = LittleEndian \<Longrightarrow> unat x = 0x25 \<and> unat y = 0x88"
    using assms split [OF x, of "unat y"] by (simp add: uint16_def)
  show "bo = BigEndian \<Longrightarrow> unat y = 0x25 \<and> unat x = 0x88"
    using assms split [OF y, of "unat x"] by (simp add: uint16_def)
qed

lemma overlapping_entry_offset_zero:
  assumes off: "off = uint32 bo (seg ! 14) (seg ! 15) (seg ! 16) (seg ! 17)"
      and small: "off \<le> 5"
      and tag: "uint16 bo (seg ! (off + 12)) (seg ! (off + 13)) = 0x8825"
  shows "off = 0"
proof (rule ccontr)
  assume "off \<noteq> 0"
  then consider "off = 1" | "off = 2" | "off = 3" | "off = 4" | "off = 5"
    using small by arith
  then show False
  proof cases
    case 1
    show False
    proof (cases bo)
      case LittleEndian
      from uint32_small(1) [OF small [unfolded off] LittleEndian] gps_tag_bytes(1) [OF tag LittleEndian]
      show False using 1 off by simp
    next
      case BigEndian
      from uint32_small(2) [OF small [unfolded off] BigEndian] gps_tag_bytes(2) [OF tag BigEndian]
      show False using 1 off by simp
    qed
  next
    case 2
    show False
    proof (cases bo)
      case LittleEndian
      from uint32_small(1) [OF small [unfolded off] LittleEndian] gps_tag_bytes(1) [OF tag LittleEndian]
      show False using 2 off by simp
    next
      case BigEndian
      from uint32_small(2) [OF small [unfolded off] BigEndian] gps_tag_bytes(2) [OF tag BigEndian]
      show False using 2 off by simp
    qed
  next
    case 3
    show False
    proof (cases bo)
      case LittleEndian
      from uint32_small(1) [OF small [unfolded off] LittleEndian] gps_tag_bytes(1) [OF tag LittleEndian]
      show False using 3 off by simp
    next
      case BigEndian
      from uint32_small(2) [OF small [unfolded off] BigEndian] gps_tag_bytes(2) [OF tag BigEndian]
      show False using 3 off by simp
    qed
  next
    case 4
    show False
    proof (cases bo)
      case LittleEndian
      from uint32_small(1) [OF small [unfolded off] LittleEndian] gps_tag_bytes(1) [OF tag LittleEndian]
      show False using 4 off by simp
    next
      case BigEndian
      from uint32_small(2) [OF small [unfolded off] BigEndian] gps_tag_bytes(2) [OF tag BigEndian]
      show False using 4 off by simp
    qed
  next
    case 5
    show False
    proof (cases bo)
      case LittleEndian
      from uint32_small(1) [OF small [unfolded off] LittleEndian] gps_tag_bytes(1) [OF tag LittleEndian]
      show False using 5 off by simp
    next
      case BigEndian
      from uint32_small(2) [OF small [unfolded off] BigEndian] gps_tag_bytes(2) [OF tag BigEndian]
      show False using 5 off by simp
    qed
  qed
qed


lemma uint32_zero:
  assumes "uint32 bo b0 b1 b2 b3 = 0"
  shows "b0 = 0" "b1 = 0" "b2 = 0" "b3 = 0"
proof -
  have "unat b0 = 0 \<and> unat b1 = 0 \<and> unat b2 = 0 \<and> unat b3 = 0"
    using assms by (cases bo) (simp_all add: uint32_def)
  then show "b0 = 0" "b1 = 0" "b2 = 0" "b3 = 0"
    by (simp_all add: unat_eq_0)
qed

lemma zeroGPS_keeps_offset_field:
  assumes hdr: "tiffHeader seg = Some (bo, first, n)"
      and k: "14 \<le> k" "k \<le> 17"
  shows "zeroGPS seg ! k = seg ! k"
proof (cases "inGPSEntry seg k")
  case False
  have "18 \<le> length seg" using hdr unfolding tiffHeader_alt by (auto split: if_splits)
  then have "k < length seg" using k by simp
  then show ?thesis using False by (simp add: zeroGPS_nth)
next
  case True
  define off where "off = uint32 bo (seg ! 14) (seg ! 15) (seg ! 16) (seg ! 17)"
  have len: "18 \<le> length seg" and first: "first = 10 + off + 2"
    using hdr unfolding tiffHeader_alt off_def
    by (auto simp: Let_def split: option.splits if_splits)
  have kl: "k < length seg" using len k by simp
  from True obtain i where i: "i < n" "gpsEntryAt bo first seg i"
      "first + i * 12 \<le> k" "k < first + i * 12 + 12"
    unfolding inGPSEntry_covered [OF hdr] covered_def by blast
  have i0: "i = 0" and small: "off \<le> 5" using i(3) k(2) first by arith+
  have tag: "uint16 bo (seg ! (off + 12)) (seg ! (off + 13)) = 0x8825"
    using i(2) unfolding gpsEntryAt_def i0 first by (simp add: add.commute)
  have "off = 0"
    by (rule overlapping_entry_offset_zero [OF off_def small tag])
  then have z: "uint32 bo (seg ! 14) (seg ! 15) (seg ! 16) (seg ! 17) = 0"
    using off_def by simp
  note zs = uint32_zero [OF z]
  from k consider "k = 14" | "k = 15" | "k = 16" | "k = 17" by arith
  then have "seg ! k = 0" by cases (simp_all add: zs)
  then show ?thesis using True kl by (simp add: zeroGPS_nth)
qed

lemma zeroGPS_below_first:
  assumes hdr: "tiffHeader seg = Some (bo, first, n)"
      and k: "k < first" "k < length seg"
  shows "zeroGPS seg ! k = seg ! k"
proof -
  have "\<not> inGPSEntry seg k"
  proof
    assume "inGPSEntry seg k"
    then obtain i where "first + i * 12 \<le> k"
      unfolding inGPSEntry_covered [OF hdr] covered_def by blast
    then show False using k(1) by simp
  qed
  then show ?thesis using k(2) by (simp add: zeroGPS_nth)
qed

lemma zeroGPS_keeps_header:
  assumes hdr: "tiffHeader seg = Some (bo, first, n)"
  shows "tiffHeader (zeroGPS seg) = Some (bo, first, n)"
proof -
  let ?z = "zeroGPS seg"
  define off where "off = uint32 bo (seg ! 14) (seg ! 15) (seg ! 16) (seg ! 17)"
  have len: "18 \<le> length seg" and bom: "byteOrderMark (drop 10 seg) = Some bo"
    and fit: "off + 2 \<le> length seg - 10" and first: "first = 10 + off + 2"
    and n: "n = uint16 bo (seg ! (10 + off)) (seg ! (10 + off + 1))"
    using hdr unfolding tiffHeader_alt off_def
    by (auto simp: Let_def split: option.splits if_splits)
  have t12: "take 12 ?z = take 12 seg" by (rule zeroGPS_take) simp
  have "take 2 (drop 10 ?z) = drop 10 (take 12 ?z)" by (simp add: drop_take)
  also have "\<dots> = take 2 (drop 10 seg)" unfolding t12 by (simp add: drop_take)
  finally have t2: "take 2 (drop 10 ?z) = take 2 (drop 10 seg)" .
  have bom': "byteOrderMark (drop 10 ?z) = Some bo"
    using bom unfolding byteOrderMark_def t2 .
  have o: "?z ! 14 = seg ! 14" "?z ! 15 = seg ! 15" "?z ! 16 = seg ! 16" "?z ! 17 = seg ! 17"
    by (rule zeroGPS_keeps_offset_field [OF hdr]; simp)+
  have c0: "?z ! (10 + off) = seg ! (10 + off)"
    by (rule zeroGPS_below_first [OF hdr]) (use first fit len in simp_all)
  have c1: "?z ! (10 + off + 1) = seg ! (10 + off + 1)"
    by (rule zeroGPS_below_first [OF hdr]) (use first fit len in simp_all)
  have l18: "\<not> length ?z < 18" using len by simp
  have fit': "\<not> off + 2 > length ?z - 10" using fit by simp
  show ?thesis
    unfolding tiffHeader_alt
    by (simp only: l18 if_False bom' option.case o off_def [symmetric] Let_def fit' c0 c1
          n [symmetric] first)
qed

lemma uint16_zero [simp]: "uint16 bo 0 0 = 0"
  by (cases bo) (simp_all add: uint16_def)

lemma covered_entry_start:
  assumes "covered bo first seg n k" "first + i * 12 \<le> k" "k < first + i * 12 + 12"
  shows "gpsEntryAt bo first seg i"
proof -
  from assms(1) obtain i' where i': "gpsEntryAt bo first seg i'"
      "first + i' * 12 \<le> k" "k < first + i' * 12 + 12"
    unfolding covered_def by blast
  have "i' = i" using i'(2,3) assms(2,3) by arith
  then show ?thesis using i'(1) by simp
qed

lemma zeroGPS_no_entries [simp]: "gpsEntries (zeroGPS seg) = []"
proof (cases "tiffHeader seg")
  case None
  then show ?thesis using zeroGPS_no_header [OF None] by simp
next
  case (Some h)
  obtain bo first n where h: "h = (bo, first, n)" by (cases h)
  have hdr: "tiffHeader seg = Some (bo, first, n)" using Some h by simp
  let ?z = "zeroGPS seg"
  have hdr': "tiffHeader ?z = Some (bo, first, n)" by (rule zeroGPS_keeps_header [OF hdr])
  have none: "\<And>i. i < n \<Longrightarrow> \<not> gpsEntryAt bo first ?z i"
  proof
    fix i assume i: "i < n" and g: "gpsEntryAt bo first ?z i"
    then have fits: "first + i * 12 + 12 \<le> length seg"
      and tag: "uint16 bo (?z ! (first + i * 12)) (?z ! (first + i * 12 + 1)) = 0x8825"
      by (simp_all add: gpsEntryAt_def)
    have k0: "first + i * 12 < length seg" and k1: "first + i * 12 + 1 < length seg"
      using fits by simp_all
    show False
    proof (cases "gpsEntryAt bo first seg i")
      case True
      have "covered bo first seg n (first + i * 12)" "covered bo first seg n (first + i * 12 + 1)"
        unfolding covered_def using True i by auto
      then have "?z ! (first + i * 12) = 0" "?z ! (first + i * 12 + 1) = 0"
        using k0 k1 by (simp_all add: zeroGPS_nth inGPSEntry_covered [OF hdr])
      then show False using tag by simp
    next
      case False
      have n0: "\<not> covered bo first seg n (first + i * 12)"
        using covered_entry_start [of bo first seg n "first + i * 12" i] False by auto
      have n1: "\<not> covered bo first seg n (first + i * 12 + 1)"
        using covered_entry_start [of bo first seg n "first + i * 12 + 1" i] False by auto
      have "?z ! (first + i * 12) = seg ! (first + i * 12)"
           "?z ! (first + i * 12 + 1) = seg ! (first + i * 12 + 1)"
        using k0 k1 n0 n1 by (simp_all add: zeroGPS_nth inGPSEntry_covered [OF hdr])
      then show False using tag False fits by (simp add: gpsEntryAt_def)
    qed
  qed
  show ?thesis
    unfolding gpsEntries_def hdr' using none by (simp add: filter_empty_conv)
qed


lemma stripGPSFromJPEG_stream:
  assumes "fs path = Some (jpegStream segs t)"
      and "\<forall>s\<in>set segs. validSegment s" and "validTail t"
  shows "stripGPSFromJPEG slack fs path
           = (if \<exists>s\<in>set segs. carriesGPS s
              then WriteFile (jpegStream (map stripSegment segs) t) else ReturnNil)"
proof -
  let ?data = "[0xFF, 0xD8] @ concat (map encodeSegment segs) @ t"
  have w: "stripWalk slack ?data (length [0xFF, 0xD8 :: byte]) [0xFF, 0xD8] False
             = Some ([0xFF, 0xD8] @ concat (map encodeSegment (map stripSegment segs)) @ t,
                     False \<or> (\<exists>s\<in>set segs. isExifSegment s \<and> gpsEntries (encodeSegment s) \<noteq> []))"
    by (rule stripWalk_segments [OF assms(2,3)])
  have w': "stripWalk slack (jpegStream segs t) 2 [0xFF, 0xD8] False
             = Some (jpegStream (map stripSegment segs) t, \<exists>s\<in>set segs. carriesGPS s)"
  proof -
    have l: "length [0xFF, 0xD8 :: byte] = 2" by simp
    show ?thesis using w [unfolded l] by (simp add: jpegStream_def carriesGPS_def)
  qed
  have soi: "\<not> (length (jpegStream segs t) < 2 \<or> jpegStream segs t ! 0 \<noteq> 0xFF
                 \<or> jpegStream segs t ! 1 \<noteq> 0xD8)"
    by (simp add: jpegStream_def)
  show ?thesis
    unfolding stripGPSFromJPEG_def assms(1) option.case
    by (simp only: soi if_False w' option.case prod.case)
qed

lemma segments_length:
  "length (concat (map encodeSegment (map stripSegment segs)))
     = length (concat (map encodeSegment segs))"
  by (induction segs) simp_all

lemma segmentStart_strip [simp]:
  "segmentStart (map stripSegment segs) i = segmentStart segs i"
  unfolding segmentStart_def take_map by (simp only: segments_length)

lemma jpegStream_strip_length:
  "length (jpegStream (map stripSegment segs) t) = length (jpegStream segs t)"
  unfolding jpegStream_def using segments_length [of segs] by simp

lemma jpegStream_nth_segment:
  assumes "i < length segs" "k < length (encodeSegment (segs ! i))"
  shows "jpegStream segs t ! (segmentStart segs i + k) = encodeSegment (segs ! i) ! k"
proof -
  let ?pre = "[0xFF, 0xD8] @ concat (map encodeSegment (take i segs))"
  have split: "segs = take i segs @ segs ! i # drop (Suc i) segs"
    using assms(1) by (simp add: id_take_nth_drop [symmetric])
  have "concat (map encodeSegment segs)
          = concat (map encodeSegment (take i segs)) @ encodeSegment (segs ! i)
            @ concat (map encodeSegment (drop (Suc i) segs))"
    by (subst split) (simp only: map_append concat_append list.map concat.simps append_assoc)
  then have js: "jpegStream segs t
          = ?pre @ encodeSegment (segs ! i) @ (concat (map encodeSegment (drop (Suc i) segs)) @ t)"
    unfolding jpegStream_def by simp
  have st: "segmentStart segs i = length ?pre" by (simp add: segmentStart_def)
  have "jpegStream segs t ! (length ?pre + k)
          = (encodeSegment (segs ! i) @ (concat (map encodeSegment (drop (Suc i) segs)) @ t)) ! k"
    unfolding js by (rule nth_append_length_plus)
  also have "\<dots> = encodeSegment (segs ! i) ! k"
    using assms(2) by (simp only: nth_append if_True)
  finally show ?thesis unfolding st .
qed

lemma jpegStream_nth_tail:
  assumes "segmentStart segs (length segs) \<le> j"
  shows "jpegStream segs t ! j = t ! (j - segmentStart segs (length segs))"
proof -
  let ?pre = "[0xFF, 0xD8] @ concat (map encodeSegment segs)"
  have "jpegStream segs t = ?pre @ t" by (simp add: jpegStream_def)
  moreover have "segmentStart segs (length segs) = length ?pre" by (simp add: segmentStart_def)
  ultimately show ?thesis using assms by (simp only: nth_append) simp
qed

lemma stripSegment_bytes:
  assumes "k < length (encodeSegment s)"
  shows "encodeSegment (stripSegment s) ! k
           = (if isExifSegment s \<and> inGPSEntry (encodeSegment s) k then 0 else encodeSegment s ! k)"
  unfolding encodeSegment_strip using assms by (simp add: zeroGPS_nth)

lemma stripSegment_header:
  "take 4 (encodeSegment (stripSegment s)) = take 4 (encodeSegment s)"
  unfolding encodeSegment_take4 by simp


lemma zeroGPS_single:
  assumes "gpsEntries seg = [e]" "e + 12 \<le> length seg"
  shows "zeroGPS seg = take e seg @ replicate 12 0 @ drop (e + 12) seg"
proof (rule nth_equalityI)
  show "length (zeroGPS seg) = length (take e seg @ replicate 12 0 @ drop (e + 12) seg)"
    using assms(2) by simp
next
  fix k assume "k < length (zeroGPS seg)"
  then have k: "k < length seg" by simp
  have in_e: "inGPSEntry seg k = (e \<le> k \<and> k < e + 12)"
    by (simp add: inGPSEntry_def assms(1))
  consider "k < e" | "e \<le> k" "k < e + 12" | "e + 12 \<le> k" by arith
  then show "zeroGPS seg ! k = (take e seg @ replicate 12 0 @ drop (e + 12) seg) ! k"
  proof cases
    case 1
    then show ?thesis using k assms(2) by (simp add: zeroGPS_nth in_e nth_append)
  next
    case 2
    then have d: "k - e < 12" by arith
    have le: "length (take e seg) = e" using assms(2) by simp
    have "(take e seg @ replicate 12 0 @ drop (e + 12) seg) ! k
            = (replicate 12 0 @ drop (e + 12) seg) ! (k - e)"
      using 2(1) le by (simp add: nth_append)
    also have "\<dots> = replicate 12 0 ! (k - e)"
      using d by (simp only: nth_append length_replicate if_True)
    also have "\<dots> = 0" using d by (rule nth_replicate)
    finally show ?thesis using k 2 by (simp add: zeroGPS_nth in_e)
  next
    case 3
    then have d: "\<not> k - e < 12" and ge: "\<not> k < e" by arith+
    have le: "length (take e seg) = e" using assms(2) by simp
    have "(take e seg @ replicate 12 0 @ drop (e + 12) seg) ! k
            = (replicate 12 0 @ drop (e + 12) seg) ! (k - e)"
      using ge le by (simp add: nth_append)
    also have "\<dots> = drop (e + 12) seg ! (k - e - 12)"
      using d by (simp only: nth_append length_replicate if_False)
    also have "\<dots> = seg ! (e + 12 + (k - e - 12))"
      using assms(2) by (intro nth_drop)
    also have "e + 12 + (k - e - 12) = k" using 3 by arith
    finally show ?thesis using k 3 by (simp add: zeroGPS_nth in_e)
  qed
qed

lemma gpsSegment_bytes:
  "encodeSegment gpsSegment
     = [0xFF, 0xE1, 0x00, 0x2E, 0x45, 0x78, 0x69, 0x66, 0x00, 0x00,
        0x49, 0x49, 0x2A, 0x00, 0x08, 0x00, 0x00, 0x00,
        0x02, 0x00,
        0x0F, 0x01, 0x02, 0x00, 0x04, 0x00, 0x00, 0x00, 0x41, 0x42, 0x43, 0x00,
        0x25, 0x88, 0x04, 0x00, 0x01, 0x00, 0x00, 0x00, 0x26, 0x00, 0x00, 0x00,
        0x00, 0x00, 0x00, 0x00]"
  by (simp add: encodeSegment_def gpsSegment_def)

lemma gpsSegment_header:
  "tiffHeader (encodeSegment gpsSegment) = Some (LittleEndian, 20, 2)"
  unfolding gpsSegment_bytes
  by (simp add: tiffHeader_alt byteOrderMark_def uint32_def uint16_def)

lemma upt_2: "[0..<2] = [0, 1 :: nat]"
  by (simp add: upt_rec numeral_2_eq_2)

lemma gpsSegment_entries: "gpsEntries (encodeSegment gpsSegment) = [32]"
  unfolding gpsEntries_def gpsSegment_header option.case prod.case upt_2
  unfolding gpsSegment_bytes
  by (simp add: gpsEntryAt_def uint16_def)

lemma gpsSegment_exif: "isExifSegment gpsSegment"
  by (simp add: isExifSegment_def gpsSegment_def exifSignature_def)

lemma gpsSegment_stripped: "stripSegment gpsSegment = strippedSegment"
proof -
  have "zeroGPS (encodeSegment gpsSegment)
          = take 32 (encodeSegment gpsSegment) @ replicate 12 0
            @ drop (32 + 12) (encodeSegment gpsSegment)"
    by (rule zeroGPS_single [OF gpsSegment_entries]) (simp add: gpsSegment_def)
  then have "drop 4 (zeroGPS (encodeSegment gpsSegment)) = snd strippedSegment"
    unfolding gpsSegment_bytes
    by (simp add: strippedSegment_def numeral_eq_Suc)
  then show ?thesis
    using gpsSegment_exif
    by (simp add: stripSegment_def strippedSegment_def gpsSegment_def)
qed

lemma jfifSegment_stripped: "stripSegment jfifSegment = jfifSegment"
  by (simp add: stripSegment_def isExifSegment_def jfifSegment_def)








lemma stripWalk_copy:
  assumes "pos < length data - 1"
      and "data ! pos \<noteq> 0xFF \<or> data ! (pos + 1) = 0xD9 \<or> data ! (pos + 1) = 0xDA"
  shows "stripWalk slack data pos result m = Some (result @ drop pos data, m)"
  using assms by (subst stripWalk.simps) (auto simp: Let_def)



lemma stripWalk_step:
  assumes "pos < length data - 1" "data ! pos = 0xFF"
      and "data ! (pos + 1) \<noteq> 0xD9" "data ! (pos + 1) \<noteq> 0xDA"
      and "pos + 4 \<le> length data"
      and "sliceTo slack data pos (pos + (uint16 BigEndian (data ! (pos + 2)) (data ! (pos + 3)) + 2)) = Some seg"
  shows "stripWalk slack data pos result m
           = stripWalk slack data (pos + (uint16 BigEndian (data ! (pos + 2)) (data ! (pos + 3)) + 2))
               (result @ (if data ! (pos + 1) = 0xE1 \<and> pos + 10 < length data
                             \<and> take 6 (drop (pos + 4) data) = exifSignature
                          then zeroGPS seg else seg))
               (m \<or> ((data ! (pos + 1) = 0xE1 \<and> pos + 10 < length data
                        \<and> take 6 (drop (pos + 4) data) = exifSignature)
                       \<and> gpsEntries seg \<noteq> []))"
proof -
  have f4: "\<not> pos + 4 > length data" using assms(5) by simp
  show ?thesis
  proof (cases "data ! (pos + 1) = 0xE1 \<and> pos + 10 < length data
                  \<and> take 6 (drop (pos + 4) data) = exifSignature")
    case True
    show ?thesis
      apply (subst stripWalk.simps)
      apply (simp only: assms(1,2,3,4,6) f4 True Let_def if_True if_False not_True_eq_False
                simp_thms option.case removeGPSFromExif_spec prod.case)
      apply simp
      done
  next
    case False
    show ?thesis
      apply (subst stripWalk.simps)
      apply (simp only: assms(1,2,3,4,6) f4 False Let_def if_True if_False not_True_eq_False
                simp_thms option.case)
      done
  qed
qed





lemma sliceTo_inside:
  assumes "lo \<le> hi" "hi \<le> length out"
  shows "sliceTo slack out lo hi = Some (take (hi - lo) (drop lo out))"
  using assms by (simp add: sliceTo_def)













text \<open>
  C1 (as the code has it). For every JPEG byte stream made of the Start-Of-Image marker,
  marker segments placed back to back with no fill bytes between them (each is \<open>FF\<close>,
  a marker other than Start-Of-Scan and End-Of-Image, the declared length and the
  payload), and then the Start-Of-Scan or End-Of-Image marker and the bytes after it,
  that contains an EXIF APP1 segment whose IFD0 has an entry with the GPS-IFD-pointer
  tag \<open>0x8825\<close>, \<open>StripGPS\<close> writes a file of exactly the same length as the input;
  the marker and the declared length of every segment are unchanged; inside each segment
  a byte is zero when it lies in one of the 12-byte GPS entries of an EXIF segment and is
  the byte of the input otherwise; the two bytes of the Start-Of-Image marker and every
  byte from the Start-Of-Scan or End-Of-Image marker on are unchanged.
\<close>

theorem StripGPS_zeroes_GPS_entries_in_place:
  assumes "fs path = Some (jpegStream segs t)"
      and "\<forall>s\<in>set segs. validSegment s" and "validTail t"
      and "\<exists>s\<in>set segs. carriesGPS s"
  shows "StripGPS slack fs path = WriteFile (jpegStream (map stripSegment segs) t)
       \<and> length (jpegStream (map stripSegment segs) t) = length (jpegStream segs t)
       \<and> (\<forall>j<2. jpegStream (map stripSegment segs) t ! j = jpegStream segs t ! j)
       \<and> (\<forall>i<length segs.
            take 4 (encodeSegment (stripSegment (segs ! i))) = take 4 (encodeSegment (segs ! i))
            \<and> (\<forall>k<length (encodeSegment (segs ! i)).
                  jpegStream (map stripSegment segs) t ! (segmentStart segs i + k)
                    = (if isExifSegment (segs ! i) \<and> inGPSEntry (encodeSegment (segs ! i)) k
                       then 0 else jpegStream segs t ! (segmentStart segs i + k))))
       \<and> (\<forall>j\<ge>segmentStart segs (length segs).
            jpegStream (map stripSegment segs) t ! j = jpegStream segs t ! j)"
proof (intro conjI allI impI)
  show "StripGPS slack fs path = WriteFile (jpegStream (map stripSegment segs) t)"
    unfolding StripGPS_def
      stripGPSFromJPEG_stream [where fs = fs and path = path, OF assms(1,2,3)]
    using assms(4) by simp
next
  show "length (jpegStream (map stripSegment segs) t) = length (jpegStream segs t)"
    by (rule jpegStream_strip_length)
next
  fix j :: nat assume "j < 2"
  then consider "j = 0" | "j = 1" by arith
  then show "jpegStream (map stripSegment segs) t ! j = jpegStream segs t ! j"
    by cases (simp_all add: jpegStream_def)
next
  fix i assume "i < length segs"
  show "take 4 (encodeSegment (stripSegment (segs ! i))) = take 4 (encodeSegment (segs ! i))"
    by (rule stripSegment_header)
next
  fix i k assume i: "i < length segs" and k: "k < length (encodeSegment (segs ! i))"
  have i': "i < length (map stripSegment segs)" using i by simp
  have k': "k < length (encodeSegment (map stripSegment segs ! i))" using i k by simp
  have "jpegStream (map stripSegment segs) t ! (segmentStart (map stripSegment segs) i + k)
          = encodeSegment (map stripSegment segs ! i) ! k"
    by (rule jpegStream_nth_segment [OF i' k'])
  also have "\<dots> = encodeSegment (stripSegment (segs ! i)) ! k" using i by simp
  also have "\<dots> = (if isExifSegment (segs ! i) \<and> inGPSEntry (encodeSegment (segs ! i)) k
                     then 0 else encodeSegment (segs ! i) ! k)"
    by (rule stripSegment_bytes [OF k])
  also have "encodeSegment (segs ! i) ! k = jpegStream segs t ! (segmentStart segs i + k)"
    by (rule jpegStream_nth_segment [OF i k, symmetric])
  finally show "jpegStream (map stripSegment segs) t ! (segmentStart segs i + k)
                  = (if isExifSegment (segs ! i) \<and> inGPSEntry (encodeSegment (segs ! i)) k
                     then 0 else jpegStream segs t ! (segmentStart segs i + k))"
    by (simp only: segmentStart_strip)
next
  fix j assume j: "segmentStart segs (length segs) \<le> j"
  have j': "segmentStart (map stripSegment segs) (length (map stripSegment segs)) \<le> j"
    using j by simp
  show "jpegStream (map stripSegment segs) t ! j = jpegStream segs t ! j"
    unfolding jpegStream_nth_tail [OF j] jpegStream_nth_tail [OF j'] by simp
qed

theorem StripGPS_zeroes_GPS_entries_in_place_witness:
  "StripGPS 512 [''photo.jpg'' \<mapsto> jpegStream [jfifSegment, gpsSegment] [0xFF, 0xD9]] ''photo.jpg''
     = WriteFile (jpegStream [jfifSegment, strippedSegment] [0xFF, 0xD9])"
proof -
  have h1: "[''photo.jpg'' \<mapsto> jpegStream [jfifSegment, gpsSegment] [0xFF, 0xD9]] ''photo.jpg''
              = Some (jpegStream [jfifSegment, gpsSegment] [0xFF, 0xD9])" by simp
  have h2: "\<forall>s\<in>set [jfifSegment, gpsSegment]. validSegment s"
    by (simp add: validSegment_def jfifSegment_def gpsSegment_def)
  have h3: "validTail [0xFF, 0xD9]" by (simp add: validTail_def)
  have h4: "\<exists>s\<in>set [jfifSegment, gpsSegment]. carriesGPS s"
    by (simp add: carriesGPS_def gpsSegment_exif gpsSegment_entries)
  have h5: "map stripSegment [jfifSegment, gpsSegment] = [jfifSegment, strippedSegment]"
    by (simp add: gpsSegment_stripped jfifSegment_stripped)
  note at = StripGPS_zeroes_GPS_entries_in_place
    [where fs = "[''photo.jpg'' \<mapsto> jpegStream [jfifSegment, gpsSegment] [0xFF, 0xD9]]"
       and path = "''photo.jpg''" and slack = 512, OF h1 h2 h3 h4]
  from at have "StripGPS 512 [''photo.jpg'' \<mapsto> jpegStream [jfifSegment, gpsSegment] [0xFF, 0xD9]]
                  ''photo.jpg''
                = WriteFile (jpegStream (map stripSegment [jfifSegment, gpsSegment]) [0xFF, 0xD9])"
    by (rule conjunct1)
  then show ?thesis unfolding h5 .
qed

lemma paddedPhoto_length: "length paddedPhoto = 57655"
  by (simp add: paddedPhoto_def gpsSegment_def)

lemma paddedPhoto_head:
  "paddedPhoto ! 2 = 0xFF" "paddedPhoto ! (2 + 1) = 0xFF"
  "paddedPhoto ! (2 + 2) = 0xE1" "paddedPhoto ! (2 + 3) = 0x00"
  by (simp_all add: paddedPhoto_def encodeSegment_def gpsSegment_def)

lemma paddedPhoto_scan: "paddedPhoto ! 57604 = 0"
proof -
  let ?pre = "[0xFF, 0xD8 :: byte] @ [0xFF] @ encodeSegment gpsSegment @ [0xFF, 0xDA]"
  have l: "length ?pre = 53" by (simp add: gpsSegment_def)
  have e: "paddedPhoto = ?pre @ (replicate 57600 0 @ [0xFF, 0xD9])"
    by (simp add: paddedPhoto_def)
  have "(?pre @ (replicate 57600 0 @ [0xFF, 0xD9])) ! (length ?pre + 57551)
          = (replicate 57600 (0 :: byte) @ [0xFF, 0xD9]) ! 57551"
    by (rule nth_append_length_plus)
  then have "paddedPhoto ! (length ?pre + 57551) = (replicate 57600 (0 :: byte) @ [0xFF, 0xD9]) ! 57551"
    unfolding e [symmetric] .
  also have "\<dots> = replicate 57600 (0 :: byte) ! 57551"
    by (simp add: nth_append)
  also have "\<dots> = 0" by simp
  finally show ?thesis unfolding l by simp
qed

text \<open>
  C1 as stated fails on a JPEG byte stream with a fill byte before the APP1 marker: the
  walk has no handling of fill bytes anywhere, takes the fill byte and the marker for a
  marker and a length, copies 57602 bytes as one segment and ends in the scan data, so
  the EXIF segment is never looked at, nothing is written and the GPS entry stays in the
  file.
\<close>

theorem StripGPS_fill_byte_leaves_GPS:
  "StripGPS 512 [''photo.jpg'' \<mapsto> paddedPhoto] ''photo.jpg'' = ReturnNil
   \<and> carriesGPS gpsSegment"
proof -
  have lt: "2 < length paddedPhoto - 1" by (simp add: paddedPhoto_length)
  have f4: "2 + 4 \<le> length paddedPhoto" by (simp add: paddedPhoto_length)
  have n9: "paddedPhoto ! (2 + 1) \<noteq> 0xD9" and nA: "paddedPhoto ! (2 + 1) \<noteq> 0xDA"
    by (simp_all only: paddedPhoto_head) simp_all
  have L: "uint16 BigEndian (paddedPhoto ! (2 + 2)) (paddedPhoto ! (2 + 3)) + 2 = 57602"
    by (simp only: paddedPhoto_head) (simp add: uint16_def)
  have sl: "sliceTo 512 paddedPhoto 2
              (2 + (uint16 BigEndian (paddedPhoto ! (2 + 2)) (paddedPhoto ! (2 + 3)) + 2))
            = Some (take (2 + 57602 - 2) (drop 2 paddedPhoto))"
    unfolding L by (rule sliceTo_inside) (simp_all add: paddedPhoto_length)
  have E: "(paddedPhoto ! (2 + 1) = 0xE1 \<and> 2 + 10 < length paddedPhoto
                 \<and> take 6 (drop (2 + 4) paddedPhoto) = exifSignature) = False"
    by (simp only: paddedPhoto_head) simp
  have step: "stripWalk 512 paddedPhoto 2 [0xFF, 0xD8] False
                = stripWalk 512 paddedPhoto (2 + 57602)
                    ([0xFF, 0xD8] @ take (2 + 57602 - 2) (drop 2 paddedPhoto)) False"
    by (simp only: stripWalk_step [OF lt paddedPhoto_head(1) n9 nA f4 sl] L E if_False simp_thms)
  have lt2: "2 + 57602 < length paddedPhoto - 1" by (simp add: paddedPhoto_length)
  have nff: "paddedPhoto ! (2 + 57602) \<noteq> 0xFF \<or> paddedPhoto ! (2 + 57602 + 1) = 0xD9
               \<or> paddedPhoto ! (2 + 57602 + 1) = 0xDA"
    using paddedPhoto_scan by simp
  have walk: "stripWalk 512 paddedPhoto 2 [0xFF, 0xD8] False
                = Some (([0xFF, 0xD8] @ take (2 + 57602 - 2) (drop 2 paddedPhoto))
                          @ drop (2 + 57602) paddedPhoto, False)"
    unfolding step by (rule stripWalk_copy [OF lt2 nff])
  have rd: "[''photo.jpg'' \<mapsto> paddedPhoto] ''photo.jpg'' = Some paddedPhoto" by simp
  have soi: "\<not> (length paddedPhoto < 2 \<or> paddedPhoto ! 0 \<noteq> 0xFF \<or> paddedPhoto ! 1 \<noteq> 0xD8)"
    by (simp add: paddedPhoto_def)
  have "StripGPS 512 [''photo.jpg'' \<mapsto> paddedPhoto] ''photo.jpg'' = ReturnNil"
    unfolding StripGPS_def stripGPSFromJPEG_def rd option.case
    by (simp only: soi if_False walk option.case prod.case)
  moreover have "carriesGPS gpsSegment"
    by (simp add: carriesGPS_def gpsSegment_exif gpsSegment_entries)
  ultimately show ?thesis by (rule conjI)
qed



end
